theory Spec2Isabelle
  imports Complex_Main "HOL-Library.Word"
begin

section \<open>Machine integers and containers\<close>

text \<open>
  The sources are \<^verbatim>\<open>src/utilities/linear_algebra/dense_matrix.hpp\<close> and
  \<^verbatim>\<open>src/utilities/linear_algebra/dense_vector.cpp\<close>.

  An \<^verbatim>\<open>unsigned int\<close> is a 32-bit word: its arithmetic wraps around. An \<^verbatim>\<open>int\<close> is
  the same word read in two's complement (\<open>sint\<close>); a conversion between the two keeps
  the bits. A container size (\<^verbatim>\<open>size_t\<close>) is a natural number; storing it in an
  \<^verbatim>\<open>int\<close> or an \<^verbatim>\<open>unsigned int\<close> keeps its low 32 bits (\<open>word_of_nat\<close>).

  A \<^verbatim>\<open>std::vector<T>\<close> is a list. The element type \<^verbatim>\<open>double\<close> stays a type variable
  wherever the source only moves or combines elements: the theorems about copying hold
  for every element type, the theorems about arithmetic for every type that has the
  operations (and the laws) their statements name.

  An operation that writes into a vector returns the vector after the call. Where the
  source reaches past the end of a buffer through a raw pointer or an iterator, the
  behaviour is undefined: the model returns \<open>None\<close>.
\<close>

type_synonym uint = "32 word"

type_synonym cint = "32 word"

datatype error = OutOfRange

text \<open>\<^verbatim>\<open>std::vector<T>::at(n)\<close>: throws \<^verbatim>\<open>std::out_of_range\<close> unless \<open>n < size()\<close>.\<close>

definition vector_at :: "'a list \<Rightarrow> nat \<Rightarrow> error + 'a" where
  "vector_at xs n = (if n < length xs then Inr (xs ! n) else Inl OutOfRange)"

text \<open>
  \<^verbatim>\<open>std::vector<T>::resize(n)\<close>: the first \<open>n\<close> elements are kept, new elements are
  value-initialised (\<open>0\<close> for an arithmetic \<open>T\<close>).
\<close>

definition vector_resize :: "'a::zero list \<Rightarrow> nat \<Rightarrow> 'a list" where
  "vector_resize xs n = take n xs @ replicate (n - length xs) 0"

section \<open>The dense matrix container\<close>

text \<open>\<^verbatim>\<open>template<typename T> struct matrix\<close> (dense_matrix.hpp, lines 45-51).\<close>

record 'a matrix =
  m_dLeading :: uint
  m_dSecond :: uint
  m_data :: "'a list"

text \<open>The default constructor (lines 55-59).\<close>

definition matrix_default :: "'a matrix" where
  "matrix_default = \<lparr>m_dLeading = 0, m_dSecond = 0, m_data = []\<rparr>"

text \<open>
  \<^verbatim>\<open>resize\<close> (lines 84-89). The product \<^verbatim>\<open>m_dLeading*m_dSecond\<close> is a product of two
  \<^verbatim>\<open>unsigned int\<close>: it is computed in 32 bits and then widened to the \<^verbatim>\<open>size_t\<close>
  argument of \<^verbatim>\<open>std::vector::resize\<close>.
\<close>

definition resize :: "'a::zero matrix \<Rightarrow> uint \<Rightarrow> uint \<Rightarrow> 'a matrix" where
  "resize m dLeading dSecond =
     (let m1 = m\<lparr>m_dLeading := dLeading\<rparr>;
          m2 = m1\<lparr>m_dSecond := dSecond\<rparr>
      in m2\<lparr>m_data := vector_resize (m_data m2) (unat (m_dLeading m2 * m_dSecond m2))\<rparr>)"

text \<open>
  The two-argument constructor (lines 64-67) default-constructs \<^verbatim>\<open>m_data\<close> (empty) and
  calls \<^verbatim>\<open>resize\<close>, which overwrites both dimensions.
\<close>

definition matrix_ctor :: "uint \<Rightarrow> uint \<Rightarrow> 'a::zero matrix" where
  "matrix_ctor dLeading dSecond = resize matrix_default dLeading dSecond"

text \<open>
  The element accessors \<^verbatim>\<open>operator()(row, col)\<close> (lines 110-121): both evaluate
  \<^verbatim>\<open>m_data.at(row*m_dSecond+col)\<close>, the index being computed in \<^verbatim>\<open>unsigned int\<close>.
  The read-only accessor (\<open>matrix_get\<close>) returns the element; the mutable one
  (\<open>matrix_ref\<close>) returns a reference, which is modelled by the buffer offset it refers
  to.
\<close>

definition matrix_index :: "'a matrix \<Rightarrow> uint \<Rightarrow> uint \<Rightarrow> nat" where
  "matrix_index m row col = unat (row * m_dSecond m + col)"

definition matrix_get :: "'a matrix \<Rightarrow> uint \<Rightarrow> uint \<Rightarrow> error + 'a" where
  "matrix_get m row col = vector_at (m_data m) (matrix_index m row col)"

definition matrix_ref :: "'a matrix \<Rightarrow> uint \<Rightarrow> uint \<Rightarrow> error + nat" where
  "matrix_ref m row col =
     (case vector_at (m_data m) (matrix_index m row col) of
        Inl e \<Rightarrow> Inl e
      | Inr _ \<Rightarrow> Inr (matrix_index m row col))"

section \<open>The BLAS kernels\<close>

text \<open>
  The kernels belong to the external BLAS library; \<^verbatim>\<open>blas.hpp\<close>, which declares them,
  is not among the sources. They are called with unit stride throughout, which is all
  the models cover. A kernel takes an \<^verbatim>\<open>int\<close> length and does not check bounds.
\<close>

text \<open>
  Modelled from the spec: the copy kernel that \<^verbatim>\<open>CopyVector\<close> calls (\<^verbatim>\<open>ccopy_\<close>, the
  copy of single-precision complex numbers, whose elements have the size of a
  \<^verbatim>\<open>double\<close>), which "copies \<open>n\<close> contiguous scalars" and does nothing for \<open>N \<le> 0\<close>. A pointer into a vector
  is the vector and an offset; the offset is an integer, since the sources index with
  \<^verbatim>\<open>int\<close>. A copy that leaves either buffer has no defined result. The updated
  destination \<open>y\<close> is returned.
\<close>

definition ccopy :: "cint \<Rightarrow> 'a list \<Rightarrow> int \<Rightarrow> 'a list \<Rightarrow> int \<Rightarrow> 'a list option" where
  "ccopy N x x_at y y_at =
     (if sint N \<le> 0 then Some y
      else if 0 \<le> x_at \<and> x_at + sint N \<le> int (length x)
            \<and> 0 \<le> y_at \<and> y_at + sint N \<le> int (length y)
      then Some (take (nat y_at) y @ take (nat (sint N)) (drop (nat x_at) x)
                 @ drop (nat (y_at + sint N)) y)
      else None)"

text \<open>
  Modelled from the spec: the kernel \<^verbatim>\<open>daxpy_\<close>, "scaled-accumulate" with an explicit
  length: \<open>y_i := y_i + alpha * x_i\<close> for \<open>i < N\<close>, nothing for \<open>N \<le> 0\<close>. Running over the
  end of a buffer has no defined result. The arguments are the buffers from
  \<^verbatim>\<open>data()\<close>; the updated \<open>y\<close> is returned.
\<close>

definition daxpy :: "cint \<Rightarrow> 'a::{plus,times} \<Rightarrow> 'a list \<Rightarrow> 'a list \<Rightarrow> 'a list option" where
  "daxpy N alpha x y =
     (if sint N \<le> 0 then Some y
      else if nat (sint N) \<le> length x \<and> nat (sint N) \<le> length y
      then Some (map2 (\<lambda>y_i x_i. y_i + alpha * x_i) (take (nat (sint N)) y) (take (nat (sint N)) x)
                 @ drop (nat (sint N)) y)
      else None)"

text \<open>
  Modelled from the spec: the kernel \<^verbatim>\<open>dsbmv_\<close>, "symmetric-band multiply"
  \<open>y := alpha * A * x + beta * y\<close> of order \<open>N\<close>, for the only shape the sources use:
  \<open>K = 0\<close> off-diagonals and leading dimension 1, where the band storage \<open>a\<close> is the
  diagonal of \<open>A\<close>, so \<open>y_i := alpha * a_i * x_i + beta * y_i\<close> for \<open>i < N\<close>. As in the
  reference BLAS, \<open>beta = 0\<close> means that \<open>y\<close> is not read (its elements are set to zero,
  not multiplied by zero), and a negative order is an argument error with no result.
\<close>

definition dsbmv_diagonal ::
  "cint \<Rightarrow> 'a::{zero,plus,times} \<Rightarrow> 'a list \<Rightarrow> 'a list \<Rightarrow> 'a \<Rightarrow> 'a list \<Rightarrow> 'a list option" where
  "dsbmv_diagonal N alpha a x beta y =
     (if sint N < 0 then None
      else if nat (sint N) \<le> length a \<and> nat (sint N) \<le> length x \<and> nat (sint N) \<le> length y
      then Some (map (\<lambda>i. alpha * a ! i * x ! i + (if beta = 0 then 0 else beta * y ! i))
                   [0 ..< nat (sint N)]
                 @ drop (nat (sint N)) y)
      else None)"

section \<open>Dense vector operations\<close>

text \<open>
  \<^verbatim>\<open>CopyVector(out, in, N)\<close> (dense_vector.cpp, lines 33-40). Forming an address
  \<^verbatim>\<open>&v[i]\<close> for the call reads nothing: only the elements that the kernel copies count
  as accesses, so a run of length zero at either end of a vector is a no-op.
\<close>

definition CopyVector :: "'a list \<Rightarrow> int \<Rightarrow> 'a list \<Rightarrow> int \<Rightarrow> cint \<Rightarrow> 'a list option" where
  "CopyVector out out_at inp in_at N = ccopy N inp in_at out out_at"

subsection \<open>The sub-vector packing protocol\<close>

text \<open>
  \<^verbatim>\<open>ToSubVector\<close> with a \<open>zeros\<close> sequence (lines 63-84). \<open>ToSubVector_loop\<close> is the
  function body from the loop head on, with the local variables as arguments; when the
  iterator reaches \<^verbatim>\<open>zeros.end()\<close> the two statements after the loop run. The locals
  are \<^verbatim>\<open>int\<close>: \<^verbatim>\<open>*it_zeros - nzStart\<close> and \<^verbatim>\<open>*it_zeros + 1\<close> are computed in
  \<^verbatim>\<open>unsigned int\<close> and stored back, \<^verbatim>\<open>sub.size() - nzStart\<close> is computed in
  \<^verbatim>\<open>size_t\<close> and its low 32 bits stored, \<^verbatim>\<open>nnzCumulative += nnzConsecutive\<close> wraps.
  The index in \<^verbatim>\<open>&sub[nzStart]\<close> is the \<^verbatim>\<open>int\<close> read in two's complement.
\<close>

fun ToSubVector_loop :: "'a list \<Rightarrow> 'a list \<Rightarrow> cint \<Rightarrow> cint \<Rightarrow> uint list \<Rightarrow> 'a list option" where
  "ToSubVector_loop sub input nnzCumulative nzStart [] =
     (let nnzConsecutive = word_of_nat (length sub) - nzStart
      in CopyVector sub (sint nzStart) input (sint nnzCumulative) nnzConsecutive)"
| "ToSubVector_loop sub input nnzCumulative nzStart (it_zeros # zeros) =
     (let nnzConsecutive = it_zeros - nzStart
      in case (if nnzConsecutive \<noteq> 0
               then CopyVector sub (sint nzStart) input (sint nnzCumulative) nnzConsecutive
               else Some sub) of
           None \<Rightarrow> None
         | Some sub' \<Rightarrow>
             ToSubVector_loop sub' input (nnzCumulative + nnzConsecutive) (it_zeros + 1) zeros)"

definition ToSubVector :: "'a list \<Rightarrow> 'a list \<Rightarrow> uint \<Rightarrow> uint list \<Rightarrow> 'a list option" where
  "ToSubVector sub input offset zeros = ToSubVector_loop sub input offset 0 zeros"


text \<open>\<^verbatim>\<open>FromSubVector\<close> with a \<open>zeros\<close> sequence (lines 102-123), in the same way.\<close>

fun FromSubVector_loop :: "'a list \<Rightarrow> 'a list \<Rightarrow> cint \<Rightarrow> cint \<Rightarrow> uint list \<Rightarrow> 'a list option" where
  "FromSubVector_loop sub output nnzCumulative nzStart [] =
     (let nnzConsecutive = word_of_nat (length sub) - nzStart
      in CopyVector output (sint nnzCumulative) sub (sint nzStart) nnzConsecutive)"
| "FromSubVector_loop sub output nnzCumulative nzStart (it_zeros # zeros) =
     (let nnzConsecutive = it_zeros - nzStart
      in case (if nnzConsecutive \<noteq> 0
               then CopyVector output (sint nnzCumulative) sub (sint nzStart) nnzConsecutive
               else Some output) of
           None \<Rightarrow> None
         | Some output' \<Rightarrow>
             FromSubVector_loop sub output' (nnzCumulative + nnzConsecutive) (it_zeros + 1) zeros)"

definition FromSubVector :: "'a list \<Rightarrow> 'a list \<Rightarrow> uint \<Rightarrow> uint list \<Rightarrow> 'a list option" where
  "FromSubVector sub output offset zeros = FromSubVector_loop sub output offset 0 zeros"


declare ToSubVector_loop.simps [simp del] FromSubVector_loop.simps [simp del]

subsection \<open>SetToRandomVector\<close>

text \<open>
  Modelled from the spec: the random-number service, a "deterministic
  linear-congruential-family generator seeded with \<open>seed\<close>". The source takes it from
  the C++ standard library: \<^verbatim>\<open>std::minstd_rand\<close> is the generator
  \<open>x := 48271 * x mod (2^31 - 1)\<close>, and \<^verbatim>\<open>seed(s)\<close> sets \<open>x := s mod (2^31 - 1)\<close>, or 1
  when that is 0.
\<close>

definition minstd_rand_seed :: "uint \<Rightarrow> nat" where
  "minstd_rand_seed seed =
     (if unat seed mod 2147483647 = 0 then 1 else unat seed mod 2147483647)"

definition minstd_rand_next :: "nat \<Rightarrow> nat" where
  "minstd_rand_next x = (48271 * x) mod 2147483647"

text \<open>
  Modelled from the spec: the uniform distribution on \<open>[-scale, scale]\<close> of the random-number
  service. \<^verbatim>\<open>std::uniform_real_distribution<double>(a, b)\<close> maps a canonical value \<open>u\<close> in
  \<open>[0, 1)\<close>, built from two draws of the generator (whose values range over
  \<open>2147483646\<close> numbers from 1 on), to \<open>u * (b - a) + a\<close>. A \<^verbatim>\<open>double\<close> is a real number
  here: rounding is not modelled. A draw returns the value and the generator after it.
\<close>

definition generate_canonical :: "nat \<Rightarrow> real \<times> nat" where
  "generate_canonical generator =
     (let g1 = minstd_rand_next generator;
          g2 = minstd_rand_next g1;
          R = 2147483646
      in ((real (g1 - 1) + real (g2 - 1) * R) / (R * R), g2))"

definition uniform_real_distribution :: "real \<Rightarrow> real \<Rightarrow> nat \<Rightarrow> real \<times> nat" where
  "uniform_real_distribution a b generator =
     (case generate_canonical generator of
        (u, generator') \<Rightarrow> (u * (b - a) + a, generator'))"

text \<open>
  \<^verbatim>\<open>SetToRandomVector\<close> (lines 140-152): the generator and the distribution are local
  objects; the loop assigns one draw to each element and threads the generator through.
\<close>

fun SetToRandomVector_loop :: "(nat \<Rightarrow> real \<times> nat) \<Rightarrow> nat \<Rightarrow> real list \<Rightarrow> real list" where
  "SetToRandomVector_loop distribution generator [] = []"
| "SetToRandomVector_loop distribution generator (it # vec) =
     (case distribution generator of
        (x, generator') \<Rightarrow> x # SetToRandomVector_loop distribution generator' vec)"

definition SetToRandomVector :: "real list \<Rightarrow> real \<Rightarrow> uint \<Rightarrow> real list" where
  "SetToRandomVector vec scale seed =
     (let distribution = uniform_real_distribution (- scale) scale;
          generator = minstd_rand_seed seed
      in SetToRandomVector_loop distribution generator vec)"

subsection \<open>VectorDiff and VectorHadamard\<close>

text \<open>
  \<^verbatim>\<open>VectorDiff\<close> (lines 157-167): \<^verbatim>\<open>int N = output.size()\<close> is taken before
  \<^verbatim>\<open>output = a\<close>, and keeps the low 32 bits of the size.
\<close>

definition VectorDiff :: "'a::ring_1 list \<Rightarrow> 'a list \<Rightarrow> 'a list \<Rightarrow> 'a list option" where
  "VectorDiff output a b =
     (let N = (word_of_nat (length output) :: cint);
          output = a
      in daxpy N (- 1) b output)"

text \<open>
  \<^verbatim>\<open>VectorHadamard\<close> (lines 185-197): \<^verbatim>\<open>dsbmv_\<close> with \<^verbatim>\<open>K = 0\<close>, \<^verbatim>\<open>BETA = 0.0\<close>,
  the band storage \<open>a\<close>, the vector \<open>b\<close> and the output \<open>c\<close>.
\<close>

definition VectorHadamard ::
  "'a::{zero,plus,times} list \<Rightarrow> 'a \<Rightarrow> 'a list \<Rightarrow> 'a list \<Rightarrow> 'a list option" where
  "VectorHadamard c scale a b =
     (let N = (word_of_nat (length c) :: cint)
      in dsbmv_diagonal N scale a b 0 c)"

subsection \<open>VectorHadamardIncrement\<close>

text \<open>
  \<^verbatim>\<open>VectorHadamardIncrement\<close> (lines 202-217). The iterators are modelled by their
  distance from \<^verbatim>\<open>begin()\<close>. The inner loop runs while \<^verbatim>\<open>it_a_block < a.end()\<close>; it
  reads \<^verbatim>\<open>*it_b_block\<close>, which is undefined once the iterator has left \<open>b\<close>. The
  statement \<^verbatim>\<open>*it_a_block *= scale * *it_b_block\<close> multiplies the element by the product
  on the right.
\<close>

definition block :: nat where
  "block = 64"

function VectorHadamardIncrement_inner ::
  "'a::times list \<Rightarrow> 'a \<Rightarrow> 'a list \<Rightarrow> nat \<Rightarrow> nat \<Rightarrow> 'a list option" where
  "VectorHadamardIncrement_inner a scale b it_a_block it_b_block =
     (if it_a_block < length a then
        (if it_b_block < length b then
           VectorHadamardIncrement_inner
             (a[it_a_block := a ! it_a_block * (scale * b ! it_b_block)]) scale b
             (it_a_block + 1) (it_b_block + 1)
         else None)
      else Some a)"
  by pat_completeness auto
termination
  by (relation "measure (\<lambda>(a, scale, b, it_a_block, it_b_block). length a - it_a_block)") auto

declare VectorHadamardIncrement_inner.simps [simp del]

text \<open>
  The outer loop advances both iterators by \<open>block\<close>. It terminates because the inner
  loop keeps the length of \<open>a\<close>.
\<close>

function VectorHadamardIncrement_outer ::
  "'a::times list \<Rightarrow> 'a \<Rightarrow> 'a list \<Rightarrow> nat \<Rightarrow> nat \<Rightarrow> 'a list option" where
  "VectorHadamardIncrement_outer a scale b it_a it_b =
     (if it_a < length a then
        (case VectorHadamardIncrement_inner a scale b it_a it_b of
           None \<Rightarrow> None
         | Some a' \<Rightarrow> VectorHadamardIncrement_outer a' scale b (it_a + block) (it_b + block))
      else Some a)"
  by pat_completeness auto
termination
proof (relation "measure (\<lambda>(a, scale, b, it_a, it_b). length a - it_a)", goal_cases)
  case 1
  show ?case by simp
next
  case (2 a scale b it_a it_b a')
  have keeps: "length r = length x"
    if "VectorHadamardIncrement_inner x scale b i j = Some r" for x r :: "'a list" and i j
    using that
  proof (induction x scale b i j rule: VectorHadamardIncrement_inner.induct)
    case (1 x scale b i j)
    show ?case
    proof (cases "i < length x \<and> j < length b")
      case True
      with "1.prems" have "VectorHadamardIncrement_inner (x[i := x ! i * (scale * b ! j)])
          scale b (i + 1) (j + 1) = Some r"
        by (simp add: VectorHadamardIncrement_inner.simps [of x])
      with True "1.IH" show ?thesis by simp
    next
      case False
      with "1.prems" show ?thesis
        by (auto simp: VectorHadamardIncrement_inner.simps [of x] split: if_splits)
    qed
  qed
  from keeps [OF 2(2)] 2(1) show ?case by (simp add: block_def)
qed

declare VectorHadamardIncrement_outer.simps [simp del]

definition VectorHadamardIncrement :: "'a::times list \<Rightarrow> 'a \<Rightarrow> 'a list \<Rightarrow> 'a list option" where
  "VectorHadamardIncrement a scale b = VectorHadamardIncrement_outer a scale b 0 0"

text \<open>
  The single straightforward pass of the specification: the update rule of the source,
  \<open>a_i := a_i * (scale * b_i)\<close>, applied once to each element.
\<close>

definition hadamard_increment_single_pass :: "'a::times list \<Rightarrow> 'a \<Rightarrow> 'a list \<Rightarrow> 'a list" where
  "hadamard_increment_single_pass a scale b = map2 (\<lambda>a_i b_i. a_i * (scale * b_i)) a b"

section \<open>Synchronization across ranks\<close>

text \<open>
  The communication layer (\<^verbatim>\<open>MpiWrapper\<close>, in \<^verbatim>\<open>wrappers/mpi_wrapper.hpp\<close>) is not
  among the sources. All ranks run the same collective call; the state of the computation
  is the list of the ranks' local values, rank \<open>r\<close> at position \<open>r\<close>, and \<^verbatim>\<open>mpi.m_id\<close> on
  rank \<open>r\<close> is \<open>r\<close>. A collective call takes the list of all ranks' values and returns the
  list after the call.
\<close>

definition valid_rank :: "int \<Rightarrow> nat \<Rightarrow> bool" where
  "valid_rank syncNode nprocs \<longleftrightarrow> 0 \<le> syncNode \<and> nat syncNode < nprocs"

text \<open>
  Modelled from the spec: \<^verbatim>\<open>mpi.Sync(&x, 1, syncNode)\<close> on a single value, of the
  "abstract synchronization service exposing \<open>Sync(buffer, count, sourceRank)\<close>" in which
  "one designated rank's data is broadcast". There is no result when the source is not a
  rank.
\<close>

definition Sync_value :: "'v list \<Rightarrow> int \<Rightarrow> 'v list option" where
  "Sync_value buffer syncNode =
     (if valid_rank syncNode (length buffer)
      then Some (map (\<lambda>r. buffer ! nat syncNode) [0 ..< length buffer])
      else None)"

text \<open>
  Modelled from the spec: \<^verbatim>\<open>mpi.Sync(buffer, bufferSize, syncNode)\<close> on a buffer, of the
  same service: the first \<open>bufferSize\<close> elements of every rank's buffer become those of
  the source rank. There is no result when the source is not a rank, when the ranks
  disagree on the count, or when a buffer is shorter than the count.
\<close>

definition Sync :: "'v list list \<Rightarrow> nat list \<Rightarrow> int \<Rightarrow> 'v list list option" where
  "Sync buffer bufferSize syncNode =
     (if valid_rank syncNode (length buffer) \<and> length bufferSize = length buffer
         \<and> list_all (\<lambda>r. bufferSize ! r = bufferSize ! nat syncNode
                          \<and> bufferSize ! r \<le> length (buffer ! r)) [0 ..< length buffer]
      then Some (map (\<lambda>r. take (bufferSize ! r) (buffer ! nat syncNode)
                            @ drop (bufferSize ! r) (buffer ! r)) [0 ..< length buffer])
      else None)"

text \<open>
  \<^verbatim>\<open>MpiSyncVector\<close> (dense_vector.cpp, lines 45-57), run by every rank.
  \<^verbatim>\<open>unsigned int dim = vector.size()\<close> keeps the low 32 bits of the size.
\<close>

definition MpiSyncVector :: "'a::zero list list \<Rightarrow> int \<Rightarrow> 'a list list option" where
  "MpiSyncVector vector syncNode =
     (let dim = map (\<lambda>v. (word_of_nat (length v) :: uint)) vector
      in case Sync_value dim syncNode of
           None \<Rightarrow> None
         | Some dim \<Rightarrow>
             (let vector = map (\<lambda>m_id. if syncNode \<noteq> int m_id
                                         then vector_resize (vector ! m_id) (unat (dim ! m_id))
                                         else vector ! m_id) [0 ..< length vector]
              in Sync vector (map unat dim) syncNode))"

text \<open>\<^verbatim>\<open>matrix::MpiSync\<close> (dense_matrix.hpp, lines 72-79), run by every rank.\<close>

definition MpiSync :: "'a::zero matrix list \<Rightarrow> int \<Rightarrow> 'a matrix list option" where
  "MpiSync m syncNode =
     (case Sync_value (map m_dLeading m) syncNode of
        None \<Rightarrow> None
      | Some dLeading \<Rightarrow>
          (case Sync_value (map m_dSecond m) syncNode of
             None \<Rightarrow> None
           | Some dSecond \<Rightarrow>
               (case MpiSyncVector (map m_data m) syncNode of
                  None \<Rightarrow> None
                | Some data \<Rightarrow>
                    Some (map (\<lambda>r. \<lparr>m_dLeading = dLeading ! r, m_dSecond = dSecond ! r,
                                       m_data = data ! r\<rparr>) [0 ..< length m]))))"

section \<open>Facts about machine arithmetic and containers\<close>

lemma unat_mult_exact:
  fixes a b :: uint
  assumes "unat a * unat b < 2 ^ 32"
  shows "unat (a * b) = unat a * unat b"
  using assms by (simp add: unat_word_ariths)

lemma flat_index_exact:
  fixes row col dL dS :: uint
  assumes prod: "unat dL * unat dS < 2 ^ 32"
    and row: "row < dL" and col: "col < dS"
  shows "unat (row * dS + col) = unat row * unat dS + unat col"
    and "unat row * unat dS + unat col < unat dL * unat dS"
proof -
  from row have r: "unat row < unat dL" by (simp add: word_less_nat_alt)
  from col have c: "unat col < unat dS" by (simp add: word_less_nat_alt)
  from r have "Suc (unat row) \<le> unat dL" by simp
  then have "Suc (unat row) * unat dS \<le> unat dL * unat dS"
    by (rule mult_le_mono1)
  with c show lt: "unat row * unat dS + unat col < unat dL * unat dS" by simp
  with prod have small: "unat row * unat dS + unat col < 2 ^ 32" by simp
  then have "unat row * unat dS < 2 ^ 32" by simp
  then have "unat (row * dS) = unat row * unat dS" by (rule unat_mult_exact)
  with small show "unat (row * dS + col) = unat row * unat dS + unat col"
    by (simp add: unat_word_ariths)
qed

lemma unat_size:
  assumes "n < 2 ^ 32"
  shows "unat (word_of_nat n :: uint) = n"
  using assms by (simp add: unat_of_nat)

lemma sint_size:
  assumes "n < 2 ^ 31"
  shows "sint (word_of_nat n :: cint) = int n"
proof -
  from assms have "int n < 2 ^ 31" by (metis of_nat_less_iff of_nat_numeral of_nat_power)
  moreover have "- (2 ^ 31) \<le> int n" by simp
  ultimately have "signed_take_bit 31 (int n) = int n"
    by (rule signed_take_bit_int_eq_self [rotated])
  then show ?thesis by (simp add: signed_of_nat)
qed

lemma sint_eq_unat: "unat (w :: cint) < 2 ^ 31 \<Longrightarrow> sint w = int (unat w)"
  using sint_size [of "unat w"] by simp

lemma sint_nonneg_uint:
  fixes w :: cint
  assumes "0 \<le> sint w"
  shows "sint w = uint w"
proof -
  have s: "sint w = signed_take_bit 31 (uint w)" by (simp add: sint_uint)
  with assms have nb: "\<not> bit (uint w) 31" by simp
  have "uint w < 2 ^ 32" using uint_lt2p [of w] by simp
  then have "take_bit 32 (uint w) = uint w" by (simp add: take_bit_int_eq_self)
  moreover have "take_bit (Suc 31) (uint w) = 2 ^ 31 * of_bool (bit (uint w) 31) + take_bit 31 (uint w)"
    by (rule take_bit_Suc_from_most)
  ultimately have "take_bit 31 (uint w) = uint w" using nb by simp
  with s nb show ?thesis by (simp add: signed_take_bit_eq_if_positive)
qed

lemma run_length:
  fixes s z :: cint
  assumes "unat s \<le> unat z"
  shows "z - s = word_of_nat (unat z - unat s)"
proof -
  from assms have "s \<le> z" by (simp add: word_le_nat_alt)
  then have "unat (z - s) = unat z - unat s" by (rule unat_sub)
  then have "word_of_nat (unat (z - s)) = (word_of_nat (unat z - unat s) :: cint)" by simp
  then show ?thesis by simp
qed

lemma next_start:
  fixes z :: cint
  assumes "unat z < 2 ^ 31"
  shows "unat (z + 1) = unat z + 1"
proof -
  from assms have "unat z + unat (1 :: cint) < 2 ^ LENGTH(32)" by simp
  then have "unat (z + 1) = unat z + unat (1 :: cint)" by (simp only: unat_add_lem)
  then show ?thesis by simp
qed

lemma advance32:
  fixes c :: cint
  assumes "unat c + k < 2 ^ 32"
  shows "unat (c + word_of_nat k) = unat c + k"
proof -
  from assms have "k < 2 ^ 32" by simp
  with assms show ?thesis by (simp add: unat_word_ariths unat_of_nat)
qed

lemma tail_length:
  fixes s :: cint
  assumes "unat s \<le> n"
  shows "word_of_nat n - s = word_of_nat (n - unat s)"
proof -
  from assms have "(word_of_nat (n - unat s) :: cint) = word_of_nat n - word_of_nat (unat s)"
    by (rule of_nat_diff)
  then show ?thesis by simp
qed

lemma count_between:
  fixes xs :: "nat list"
  assumes "sorted_wrt (<) xs" and "\<forall>x\<in>set xs. lo \<le> x \<and> x < n"
  shows "length xs \<le> n - lo"
proof -
  from assms(1) have "distinct xs" by (simp add: strict_sorted_iff)
  then have "length xs = card (set xs)" by (simp add: distinct_card)
  also have "\<dots> \<le> card {lo..<n}" using assms(2) by (intro card_mono) auto
  finally show ?thesis by simp
qed

lemma length_vector_resize: "length (vector_resize xs n) = n"
  by (simp add: vector_resize_def)

section \<open>One run of the packing protocol\<close>

lemma CopyVector_zero: "CopyVector out out_at inp in_at 0 = Some out"
  by (simp add: CopyVector_def ccopy_def)

lemma CopyVector_guard:
  "(if N \<noteq> 0 then CopyVector out out_at inp in_at N else Some out)
     = CopyVector out out_at inp in_at N"
  by (simp add: CopyVector_zero)

lemma CopyVector_nat:
  assumes "k < 2 ^ 31" and "p_out + k \<le> length out" and "p_in + k \<le> length inp"
  shows "\<exists>out'. CopyVector out (int p_out) inp (int p_in) (word_of_nat k) = Some out'
      \<and> length out' = length out
      \<and> (\<forall>i<length out. out' ! i
            = (if p_out \<le> i \<and> i < p_out + k then inp ! (p_in + (i - p_out)) else out ! i))"
proof (cases "k = 0")
  case True
  then show ?thesis by (auto simp: CopyVector_zero)
next
  case False
  let ?out' = "take p_out out @ take k (drop p_in inp) @ drop (p_out + k) out"
  have sk: "sint (word_of_nat k :: cint) = int k" using assms(1) by (rule sint_size)
  have "nat (int p_out + int k) = p_out + k" by simp
  with False assms sk have "CopyVector out (int p_out) inp (int p_in) (word_of_nat k) = Some ?out'"
    by (simp add: CopyVector_def ccopy_def)
  moreover have "length ?out' = length out" using assms by simp
  moreover have "\<forall>i<length out. ?out' ! i
            = (if p_out \<le> i \<and> i < p_out + k then inp ! (p_in + (i - p_out)) else out ! i)"
  proof (intro allI impI)
    fix i assume i: "i < length out"
    consider "i < p_out" | "p_out \<le> i" "i < p_out + k" | "p_out + k \<le> i" by linarith
    then show "?out' ! i = (if p_out \<le> i \<and> i < p_out + k then inp ! (p_in + (i - p_out)) else out ! i)"
    proof cases
      case 1
      with assms show ?thesis by (simp add: nth_append)
    next
      case 2
      then have "i - p_out < k" by linarith
      with 2 assms show ?thesis by (simp add: nth_append)
    next
      case 3
      then have "\<not> i - p_out < k" and "\<not> i < p_out" by linarith+
      moreover have "p_out + k + (i - p_out - k) = i" using 3 by simp
      ultimately show ?thesis using 3 assms i by (simp add: nth_append)
    qed
  qed
  ultimately show ?thesis by blast
qed

lemma run_to:
  assumes "k < 2 ^ 31" and "ps + k \<le> length sub" and "pc + k \<le> length input"
  shows "\<exists>sub1. CopyVector sub (int ps) input (int pc) (word_of_nat k) = Some sub1
      \<and> length sub1 = length sub
      \<and> (\<forall>p<ps. sub1 ! p = sub ! p)
      \<and> (\<forall>j<k. sub1 ! (ps + j) = input ! (pc + j))"
proof -
  from CopyVector_nat [OF assms] obtain sub1 where
    c: "CopyVector sub (int ps) input (int pc) (word_of_nat k) = Some sub1"
    and l: "length sub1 = length sub"
    and n: "\<forall>i<length sub. sub1 ! i
            = (if ps \<le> i \<and> i < ps + k then input ! (pc + (i - ps)) else sub ! i)"
    by blast
  have "\<forall>p<ps. sub1 ! p = sub ! p" using n assms(2) by simp
  moreover have "\<forall>j<k. sub1 ! (ps + j) = input ! (pc + j)" using n assms(2) by simp
  ultimately show ?thesis using c l by blast
qed

lemma run_from:
  assumes "k < 2 ^ 31" and "pc + k \<le> length output" and "ps + k \<le> length sub'"
    and "\<forall>j<k. sub' ! (ps + j) = input ! (pc + j)"
  shows "\<exists>out1. CopyVector output (int pc) sub' (int ps) (word_of_nat k) = Some out1
      \<and> length out1 = length output
      \<and> (\<forall>i<length output. out1 ! i
            = (if pc \<le> i \<and> i < pc + k then input ! i else output ! i))"
proof -
  from CopyVector_nat [OF assms(1,2,3)] obtain out1 where
    c: "CopyVector output (int pc) sub' (int ps) (word_of_nat k) = Some out1"
    and l: "length out1 = length output"
    and n: "\<forall>i<length output. out1 ! i
            = (if pc \<le> i \<and> i < pc + k then sub' ! (ps + (i - pc)) else output ! i)"
    by blast
  have "\<forall>i<length output. out1 ! i
            = (if pc \<le> i \<and> i < pc + k then input ! i else output ! i)"
  proof (intro allI impI)
    fix i assume i: "i < length output"
    show "out1 ! i = (if pc \<le> i \<and> i < pc + k then input ! i else output ! i)"
    proof (cases "pc \<le> i \<and> i < pc + k")
      case True
      then have "i - pc < k" by linarith
      with assms(4) have "sub' ! (ps + (i - pc)) = input ! (pc + (i - pc))" by blast
      with True n i show ?thesis by simp
    next
      case False
      from n i have "out1 ! i
            = (if pc \<le> i \<and> i < pc + k then sub' ! (ps + (i - pc)) else output ! i)"
        by blast
      with False show ?thesis by auto
    qed
  qed
  with c l show ?thesis by blast
qed

section \<open>The round trip of the packing protocol (C1)\<close>

text \<open>
  What a call of \<^verbatim>\<open>CopyVector\<close> that copies something and stays in range says about
  its arguments.
\<close>

lemma CopyVector_in_range:
  assumes "CopyVector out p_out inp p_in (word_of_nat k) = Some out'"
    and "0 < k" and "k < 2 ^ 31"
  shows "0 \<le> p_out \<and> 0 \<le> p_in
       \<and> p_out + int k \<le> int (length out) \<and> p_in + int k \<le> int (length inp)"
proof -
  have "sint (word_of_nat k :: cint) = int k" using assms(3) by (rule sint_size)
  with assms(1,2) show ?thesis
    by (simp add: CopyVector_def ccopy_def split: if_splits)
qed

text \<open>A run that is copied starts at a position that an \<^verbatim>\<open>int\<close> holds.\<close>

lemma run_defined:
  fixes c s :: cint
  assumes "CopyVector out (sint c) inp (sint s) (word_of_nat k) = Some out'"
    and "0 < k" and "k < 2 ^ 31"
  shows "sint c = int (unat c) \<and> sint s = int (unat s)
       \<and> unat c + k \<le> length out \<and> unat s + k \<le> length inp"
proof -
  from CopyVector_in_range [OF assms] have r: "0 \<le> sint c" "0 \<le> sint s"
    "sint c + int k \<le> int (length out)" "sint s + int k \<le> int (length inp)"
    by simp_all
  from r(1) have c: "sint c = int (unat c)" using sint_nonneg_uint [of c] by simp
  from r(2) have s: "sint s = int (unat s)" using sint_nonneg_uint [of s] by simp
  from r(3) c have "unat c + k \<le> length out" by linarith
  moreover from r(4) s have "unat s + k \<le> length inp" by linarith
  ultimately show ?thesis using c s by simp
qed


text \<open>One run of \<^verbatim>\<open>ToSubVector\<close> and of \<^verbatim>\<open>FromSubVector\<close>, given that it is in range.\<close>

lemma run_to_Some:
  fixes c s :: cint
  assumes "CopyVector sub (sint s) input (sint c) (word_of_nat k) = Some sub1"
    and "k < 2 ^ 31"
  shows "length sub1 = length sub
       \<and> (\<forall>p<unat s. sub1 ! p = sub ! p)
       \<and> (\<forall>j<k. sub1 ! (unat s + j) = input ! (unat c + j))
       \<and> (0 < k \<longrightarrow> unat c < 2 ^ 31 \<and> unat s + k \<le> length sub \<and> unat c + k \<le> length input)"
proof (cases "k = 0")
  case True
  with assms(1) show ?thesis by (simp add: CopyVector_zero)
next
  case False
  then have pos: "0 < k" by simp
  from run_defined [OF assms(1) pos assms(2)] have ss: "sint s = int (unat s)"
    and sc: "sint c = int (unat c)"
    and in_sub: "unat s + k \<le> length sub" and in_input: "unat c + k \<le> length input"
    by simp_all
  have "sint c < 2147483648" using sint_lt [of c] by simp
  with sc have "unat c < 2147483648" by linarith
  then have "unat c < 2 ^ 31" by simp
  moreover from run_to [OF assms(2) in_sub in_input] assms(1) ss sc
  have "length sub1 = length sub" "\<forall>p<unat s. sub1 ! p = sub ! p"
    "\<forall>j<k. sub1 ! (unat s + j) = input ! (unat c + j)"
    by auto
  ultimately show ?thesis using in_sub in_input by simp
qed

lemma run_from_Some:
  fixes c s :: cint
  assumes "CopyVector outp (sint c) sub' (sint s) (word_of_nat k) = Some out1"
    and "k < 2 ^ 31"
    and "\<forall>j<k. sub' ! (unat s + j) = input ! (unat c + j)"
  shows "length out1 = length outp
       \<and> (0 < k \<longrightarrow> unat c + k \<le> length outp)
       \<and> (\<forall>i<length outp. out1 ! i
             = (if unat c \<le> i \<and> i < unat c + k then input ! i else outp ! i))"
proof (cases "k = 0")
  case True
  with assms(1) show ?thesis by (auto simp: CopyVector_zero)
next
  case False
  then have pos: "0 < k" by simp
  from run_defined [OF assms(1) pos assms(2)] have sc: "sint c = int (unat c)"
    and ss: "sint s = int (unat s)"
    and in_outp: "unat c + k \<le> length outp" and in_sub: "unat s + k \<le> length sub'"
    by simp_all
  from run_from [OF assms(2) in_outp in_sub assms(3)] assms(1) ss sc
  have "length out1 = length outp" "\<forall>i<length outp. out1 ! i
             = (if unat c \<le> i \<and> i < unat c + k then input ! i else outp ! i)"
    by auto
  then show ?thesis using in_outp by simp
qed

text \<open>
  The invariant of both loops, from any loop head: \<open>nzStart\<close> is not beyond the next
  zero. When packing stays in range it leaves \<open>sub\<close> as it was before \<open>nzStart\<close>; when
  unpacking the result stays in range as well, it writes the elements of \<open>input\<close> into
  the range from \<open>nnzCumulative\<close> on, and nothing else.
\<close>

lemma subvector_roundtrip_loop:
  fixes c s :: cint and zeros :: "uint list"
  assumes "sorted_wrt (<) (map unat zeros)"
    and "\<forall>z\<in>set zeros. unat s \<le> unat z \<and> unat z < length sub"
    and "unat s \<le> length sub"
    and "length sub < 2 ^ 31"
    and "ToSubVector_loop sub input c s zeros = Some sub'"
  shows "length sub' = length sub
      \<and> (\<forall>p<unat s. sub' ! p = sub ! p)
      \<and> (\<forall>outp outp'. FromSubVector_loop sub' outp c s zeros = Some outp' \<longrightarrow>
            length outp' = length outp
            \<and> (0 < length sub - unat s - length zeros \<longrightarrow>
                  unat c + (length sub - unat s - length zeros) \<le> length outp
                  \<and> unat c + (length sub - unat s - length zeros) \<le> length input)
            \<and> (\<forall>i<length outp. outp' ! i
                  = (if unat c \<le> i \<and> i < unat c + (length sub - unat s - length zeros)
                     then input ! i else outp ! i)))"
  using assms
proof (induction zeros arbitrary: sub c s)
  case Nil
  let ?k = "length sub - unat s"
  have N: "word_of_nat (length sub) - s = (word_of_nat ?k :: cint)"
    using Nil.prems(3) by (rule tail_length)
  have k31: "?k < 2 ^ 31" using Nil.prems(4) by simp
  from Nil.prems(5) N
  have cp: "CopyVector sub (sint s) input (sint c) (word_of_nat ?k) = Some sub'"
    by (simp add: ToSubVector_loop.simps)
  from run_to_Some [OF cp k31] have len: "length sub' = length sub"
    and before: "\<forall>p<unat s. sub' ! p = sub ! p"
    and run: "\<forall>j<?k. sub' ! (unat s + j) = input ! (unat c + j)"
    and rng: "0 < ?k \<longrightarrow> unat c < 2 ^ 31 \<and> unat s + ?k \<le> length sub
                \<and> unat c + ?k \<le> length input"
    by simp_all
  have "length outp' = length outp
            \<and> (0 < length sub - unat s - length ([] :: uint list) \<longrightarrow>
                  unat c + (length sub - unat s - length ([] :: uint list)) \<le> length outp
                  \<and> unat c + (length sub - unat s - length ([] :: uint list)) \<le> length input)
            \<and> (\<forall>i<length outp. outp' ! i
                  = (if unat c \<le> i \<and> i < unat c + (length sub - unat s - length ([] :: uint list))
                     then input ! i else outp ! i))"
    if fr: "FromSubVector_loop sub' outp c s [] = Some outp'" for outp outp'
  proof -
    from fr N len
    have cp1: "CopyVector outp (sint c) sub' (sint s) (word_of_nat ?k) = Some outp'"
      by (simp add: FromSubVector_loop.simps)
    from run_from_Some [OF cp1 k31 run] rng show ?thesis by simp
  qed
  with len before show ?case by blast
next
  case (Cons z zeros)
  let ?n = "length sub"
  let ?k = "unat z - unat s"
  let ?m1 = "?n - (unat z + 1) - length zeros"
  from Cons.prems(2) have sz: "unat s \<le> unat z" and zn: "unat z < ?n" by simp_all
  from Cons.prems(1) have sorted': "sorted_wrt (<) (map unat zeros)"
    and above: "\<forall>z'\<in>set zeros. unat z < unat z'" by simp_all
  have s1: "unat (z + 1) = unat z + 1" using zn Cons.prems(4) by (intro next_start) simp
  have zs1: "\<forall>z'\<in>set zeros. unat (z + 1) \<le> unat z' \<and> unat z' < ?n"
    using above Cons.prems(2) s1 by auto
  have "\<forall>x\<in>set (map unat zeros). unat z + 1 \<le> x \<and> x < ?n" using zs1 s1 by simp
  with sorted' have cnt: "length (map unat zeros) \<le> ?n - (unat z + 1)" by (rule count_between)
  have m: "?n - unat s - length (z # zeros) = ?k + ?m1" using cnt sz zn by simp
  have N: "z - s = (word_of_nat ?k :: cint)" using sz by (rule run_length)
  have k31: "?k < 2 ^ 31" using zn Cons.prems(4) by simp
  from Cons.prems(5) N obtain sub1 where
    cp: "CopyVector sub (sint s) input (sint c) (word_of_nat ?k) = Some sub1"
    and to1: "ToSubVector_loop sub1 input (c + word_of_nat ?k) (z + 1) zeros = Some sub'"
    by (auto simp: ToSubVector_loop.simps CopyVector_guard Let_def split: option.splits)
  from run_to_Some [OF cp k31] have len1: "length sub1 = ?n"
    and before1: "\<forall>p<unat s. sub1 ! p = sub ! p"
    and run1: "\<forall>j<?k. sub1 ! (unat s + j) = input ! (unat c + j)"
    and rng1: "0 < ?k \<longrightarrow> unat c < 2 ^ 31 \<and> unat s + ?k \<le> ?n \<and> unat c + ?k \<le> length input"
    by simp_all
  have "unat c + ?k < 2 ^ 32"
  proof (cases "?k = 0")
    case True
    then show ?thesis using unsigned_less [of c] by simp
  next
    case False
    with rng1 have "unat c < 2147483648" by simp
    moreover from k31 have "?k < 2147483648" by simp
    ultimately have "unat c + ?k < 4294967296" by linarith
    then show ?thesis by simp
  qed
  then have c1: "unat (c + word_of_nat ?k) = unat c + ?k" by (rule advance32)
  have IH_pre3: "unat (z + 1) \<le> length sub1" using s1 zn len1 by simp
  have IH_pre2: "\<forall>z'\<in>set zeros. unat (z + 1) \<le> unat z' \<and> unat z' < length sub1"
    using zs1 len1 by simp
  have IH_pre4: "length sub1 < 2 ^ 31" using Cons.prems(4) len1 by simp
  have m1: "length sub1 - unat (z + 1) - length zeros = ?m1" using len1 s1 by simp
  note IH = Cons.IH [OF sorted' IH_pre2 IH_pre3 IH_pre4 to1, unfolded m1 c1]
  from IH have len: "length sub' = length sub1"
    and before: "\<forall>p<unat (z + 1). sub' ! p = sub1 ! p"
    and from1: "\<forall>outp outp'. FromSubVector_loop sub' outp (c + word_of_nat ?k) (z + 1) zeros
          = Some outp' \<longrightarrow>
            length outp' = length outp
            \<and> (0 < ?m1 \<longrightarrow> unat c + ?k + ?m1 \<le> length outp \<and> unat c + ?k + ?m1 \<le> length input)
            \<and> (\<forall>i<length outp. outp' ! i
                  = (if unat c + ?k \<le> i \<and> i < unat c + ?k + ?m1 then input ! i else outp ! i))"
    by blast+
  have len': "length sub' = ?n" using len len1 by simp
  have before': "\<forall>p<unat s. sub' ! p = sub ! p"
    using before before1 s1 sz by simp
  have run': "\<forall>j<?k. sub' ! (unat s + j) = input ! (unat c + j)"
  proof (intro allI impI)
    fix j assume j: "j < ?k"
    then have "unat s + j < unat (z + 1)" using s1 by simp
    with before have "sub' ! (unat s + j) = sub1 ! (unat s + j)" by blast
    with run1 j show "sub' ! (unat s + j) = input ! (unat c + j)" by simp
  qed
  have "length outp' = length outp
            \<and> (0 < ?n - unat s - length (z # zeros) \<longrightarrow>
                  unat c + (?n - unat s - length (z # zeros)) \<le> length outp
                  \<and> unat c + (?n - unat s - length (z # zeros)) \<le> length input)
            \<and> (\<forall>i<length outp. outp' ! i
                  = (if unat c \<le> i \<and> i < unat c + (?n - unat s - length (z # zeros))
                     then input ! i else outp ! i))"
    if fr: "FromSubVector_loop sub' outp c s (z # zeros) = Some outp'" for outp outp'
  proof -
    from fr N obtain out1 where
      cp1: "CopyVector outp (sint c) sub' (sint s) (word_of_nat ?k) = Some out1"
      and fr1: "FromSubVector_loop sub' out1 (c + word_of_nat ?k) (z + 1) zeros = Some outp'"
      by (auto simp: FromSubVector_loop.simps CopyVector_guard Let_def split: option.splits)
    from run_from_Some [OF cp1 k31 run'] have lo1: "length out1 = length outp"
      and rng_o: "0 < ?k \<longrightarrow> unat c + ?k \<le> length outp"
      and n1: "\<forall>i<length outp. out1 ! i
             = (if unat c \<le> i \<and> i < unat c + ?k then input ! i else outp ! i)"
      by simp_all
    from from1 fr1 have lo: "length outp' = length out1"
      and rng2: "0 < ?m1 \<longrightarrow> unat c + ?k + ?m1 \<le> length out1 \<and> unat c + ?k + ?m1 \<le> length input"
      and n2: "\<forall>i<length out1. outp' ! i
                  = (if unat c + ?k \<le> i \<and> i < unat c + ?k + ?m1 then input ! i else out1 ! i)"
      by blast+
    have l: "length outp' = length outp" using lo lo1 by simp
    have r: "0 < ?k + ?m1 \<longrightarrow>
               unat c + (?k + ?m1) \<le> length outp \<and> unat c + (?k + ?m1) \<le> length input"
      using rng_o rng1 rng2 lo1 by (cases "?m1 = 0") auto
    have n: "\<forall>i<length outp. outp' ! i
                  = (if unat c \<le> i \<and> i < unat c + (?k + ?m1) then input ! i else outp ! i)"
    proof (intro allI impI)
      fix i assume i: "i < length outp"
      with n2 lo1 have e2: "outp' ! i
          = (if unat c + ?k \<le> i \<and> i < unat c + ?k + ?m1 then input ! i else out1 ! i)"
        by simp
      from n1 i have e1: "out1 ! i
          = (if unat c \<le> i \<and> i < unat c + ?k then input ! i else outp ! i)"
        by blast
      show "outp' ! i = (if unat c \<le> i \<and> i < unat c + (?k + ?m1) then input ! i else outp ! i)"
        using e1 e2 by auto
    qed
    from l r n show ?thesis by (simp only: m)
  qed
  with len' before' show ?case by blast
qed

text \<open>
  Both loops stay in range when the copied range lies inside the full vector and ends at
  or below \<open>2^31\<close>, so that every run that copies something starts at a position that
  an \<^verbatim>\<open>int\<close> holds.
\<close>

lemma CopyVector_defined:
  fixes p q :: cint
  assumes "k < 2 ^ 31"
    and "0 < k \<longrightarrow> unat p < 2 ^ 31 \<and> unat q < 2 ^ 31
                  \<and> unat p + k \<le> length out \<and> unat q + k \<le> length inp"
  shows "\<exists>out'. CopyVector out (sint p) inp (sint q) (word_of_nat k) = Some out'
            \<and> length out' = length out"
proof (cases "k = 0")
  case True
  then show ?thesis by (simp add: CopyVector_zero)
next
  case False
  with assms(2) have p: "sint p = int (unat p)" and q: "sint q = int (unat q)"
    and in_out: "unat p + k \<le> length out" and in_inp: "unat q + k \<le> length inp"
    by (simp_all add: sint_eq_unat)
  from CopyVector_nat [OF assms(1) in_out in_inp] p q show ?thesis by auto
qed

lemma ToSubVector_loop_defined:
  fixes c s :: cint and zeros :: "uint list"
  assumes "sorted_wrt (<) (map unat zeros)"
    and "\<forall>z\<in>set zeros. unat s \<le> unat z \<and> unat z < length sub"
    and "unat s \<le> length sub"
    and "length sub < 2 ^ 31"
    and "unat c + (length sub - unat s - length zeros) \<le> length input"
    and "unat c + (length sub - unat s - length zeros) \<le> 2 ^ 31"
  shows "\<exists>sub'. ToSubVector_loop sub input c s zeros = Some sub' \<and> length sub' = length sub"
  using assms
proof (induction zeros arbitrary: sub c s)
  case Nil
  let ?k = "length sub - unat s"
  have N: "word_of_nat (length sub) - s = (word_of_nat ?k :: cint)"
    using Nil.prems(3) by (rule tail_length)
  have k31: "?k < 2 ^ 31" using Nil.prems(4) by simp
  have "0 < ?k \<longrightarrow> unat s < 2 ^ 31 \<and> unat c < 2 ^ 31
                  \<and> unat s + ?k \<le> length sub \<and> unat c + ?k \<le> length input"
    using Nil.prems(3,4,5,6) by auto
  from CopyVector_defined [OF k31 this] N show ?case
    by (simp add: ToSubVector_loop.simps)
next
  case (Cons z zeros)
  let ?n = "length sub"
  let ?k = "unat z - unat s"
  let ?m1 = "?n - (unat z + 1) - length zeros"
  from Cons.prems(2) have sz: "unat s \<le> unat z" and zn: "unat z < ?n" by simp_all
  from Cons.prems(1) have sorted': "sorted_wrt (<) (map unat zeros)"
    and above: "\<forall>z'\<in>set zeros. unat z < unat z'" by simp_all
  have s1: "unat (z + 1) = unat z + 1" using zn Cons.prems(4) by (intro next_start) simp
  have zs1: "\<forall>z'\<in>set zeros. unat (z + 1) \<le> unat z' \<and> unat z' < ?n"
    using above Cons.prems(2) s1 by auto
  have "\<forall>x\<in>set (map unat zeros). unat z + 1 \<le> x \<and> x < ?n" using zs1 s1 by simp
  with sorted' have cnt: "length (map unat zeros) \<le> ?n - (unat z + 1)" by (rule count_between)
  have m: "?n - unat s - length (z # zeros) = ?k + ?m1" using cnt sz zn by simp
  have N: "z - s = (word_of_nat ?k :: cint)" using sz by (rule run_length)
  have k31: "?k < 2 ^ 31" using zn Cons.prems(4) by simp
  from Cons.prems(5,6) m have all_in: "unat c + (?k + ?m1) \<le> length input"
    and all_int: "unat c + (?k + ?m1) \<le> 2 ^ 31" by simp_all
  have "0 < ?k \<longrightarrow> unat s < 2 ^ 31 \<and> unat c < 2 ^ 31
                  \<and> unat s + ?k \<le> ?n \<and> unat c + ?k \<le> length input"
    using all_in all_int sz zn Cons.prems(4) by auto
  from CopyVector_defined [OF k31 this] obtain sub1 where
    cp: "CopyVector sub (sint s) input (sint c) (word_of_nat ?k) = Some sub1"
    and len1: "length sub1 = ?n"
    by blast
  from all_int have "unat c + ?k < 2 ^ 32" by simp
  then have c1: "unat (c + word_of_nat ?k) = unat c + ?k" by (rule advance32)
  have IH_pre3: "unat (z + 1) \<le> length sub1" using s1 zn len1 by simp
  have IH_pre2: "\<forall>z'\<in>set zeros. unat (z + 1) \<le> unat z' \<and> unat z' < length sub1"
    using zs1 len1 by simp
  have IH_pre4: "length sub1 < 2 ^ 31" using Cons.prems(4) len1 by simp
  have m1: "length sub1 - unat (z + 1) - length zeros = ?m1" using len1 s1 by simp
  have IH_pre5: "unat (c + word_of_nat ?k) + (length sub1 - unat (z + 1) - length zeros)
      \<le> length input"
    using all_in c1 m1 by simp
  have IH_pre6: "unat (c + word_of_nat ?k) + (length sub1 - unat (z + 1) - length zeros)
      \<le> 2 ^ 31"
    using all_int c1 m1 by simp
  from Cons.IH [OF sorted' IH_pre2 IH_pre3 IH_pre4 IH_pre5 IH_pre6] obtain sub' where
    "ToSubVector_loop sub1 input (c + word_of_nat ?k) (z + 1) zeros = Some sub'"
    "length sub' = length sub1"
    by blast
  with cp N len1 show ?case
    by (simp add: ToSubVector_loop.simps CopyVector_guard)
qed

lemma FromSubVector_loop_defined:
  fixes c s :: cint and zeros :: "uint list"
  assumes "sorted_wrt (<) (map unat zeros)"
    and "\<forall>z\<in>set zeros. unat s \<le> unat z \<and> unat z < length sub"
    and "unat s \<le> length sub"
    and "length sub < 2 ^ 31"
    and "unat c + (length sub - unat s - length zeros) \<le> length outp"
    and "unat c + (length sub - unat s - length zeros) \<le> 2 ^ 31"
  shows "\<exists>outp'. FromSubVector_loop sub outp c s zeros = Some outp'
            \<and> length outp' = length outp"
  using assms
proof (induction zeros arbitrary: outp c s)
  case Nil
  let ?k = "length sub - unat s"
  have N: "word_of_nat (length sub) - s = (word_of_nat ?k :: cint)"
    using Nil.prems(3) by (rule tail_length)
  have k31: "?k < 2 ^ 31" using Nil.prems(4) by simp
  have "0 < ?k \<longrightarrow> unat c < 2 ^ 31 \<and> unat s < 2 ^ 31
                  \<and> unat c + ?k \<le> length outp \<and> unat s + ?k \<le> length sub"
    using Nil.prems(3,4,5,6) by auto
  from CopyVector_defined [OF k31 this] N show ?case
    by (simp add: FromSubVector_loop.simps)
next
  case (Cons z zeros)
  let ?n = "length sub"
  let ?k = "unat z - unat s"
  let ?m1 = "?n - (unat z + 1) - length zeros"
  from Cons.prems(2) have sz: "unat s \<le> unat z" and zn: "unat z < ?n" by simp_all
  from Cons.prems(1) have sorted': "sorted_wrt (<) (map unat zeros)"
    and above: "\<forall>z'\<in>set zeros. unat z < unat z'" by simp_all
  have s1: "unat (z + 1) = unat z + 1" using zn Cons.prems(4) by (intro next_start) simp
  have zs1: "\<forall>z'\<in>set zeros. unat (z + 1) \<le> unat z' \<and> unat z' < ?n"
    using above Cons.prems(2) s1 by auto
  have "\<forall>x\<in>set (map unat zeros). unat z + 1 \<le> x \<and> x < ?n" using zs1 s1 by simp
  with sorted' have cnt: "length (map unat zeros) \<le> ?n - (unat z + 1)" by (rule count_between)
  have m: "?n - unat s - length (z # zeros) = ?k + ?m1" using cnt sz zn by simp
  have N: "z - s = (word_of_nat ?k :: cint)" using sz by (rule run_length)
  have k31: "?k < 2 ^ 31" using zn Cons.prems(4) by simp
  from Cons.prems(5,6) m have all_in: "unat c + (?k + ?m1) \<le> length outp"
    and all_int: "unat c + (?k + ?m1) \<le> 2 ^ 31" by simp_all
  have "0 < ?k \<longrightarrow> unat c < 2 ^ 31 \<and> unat s < 2 ^ 31
                  \<and> unat c + ?k \<le> length outp \<and> unat s + ?k \<le> ?n"
    using all_in all_int sz zn Cons.prems(4) by auto
  from CopyVector_defined [OF k31 this] obtain out1 where
    cp: "CopyVector outp (sint c) sub (sint s) (word_of_nat ?k) = Some out1"
    and len1: "length out1 = length outp"
    by blast
  from all_int have "unat c + ?k < 2 ^ 32" by simp
  then have c1: "unat (c + word_of_nat ?k) = unat c + ?k" by (rule advance32)
  have IH_pre3: "unat (z + 1) \<le> ?n" using s1 zn by simp
  have IH_pre5: "unat (c + word_of_nat ?k) + (?n - unat (z + 1) - length zeros)
      \<le> length out1"
    using all_in c1 s1 len1 by simp
  have IH_pre6: "unat (c + word_of_nat ?k) + (?n - unat (z + 1) - length zeros) \<le> 2 ^ 31"
    using all_int c1 s1 by simp
  from Cons.IH [OF sorted' zs1 IH_pre3 Cons.prems(4) IH_pre5 IH_pre6] obtain outp' where
    "FromSubVector_loop sub out1 (c + word_of_nat ?k) (z + 1) zeros = Some outp'"
    "length outp' = length out1"
    by blast
  with cp N len1 show ?case
    by (simp add: FromSubVector_loop.simps CopyVector_guard)
qed

text \<open>
  C1, as stated, covers every \<open>sub\<close> vector. The length of the last run is
  \<^verbatim>\<open>sub.size() - nzStart\<close> stored in an \<^verbatim>\<open>int\<close>: for a \<open>sub\<close> of \<open>2^31\<close> elements with no
  zeros it is negative, neither call copies anything, every access (there is none) is in
  range, and \<open>output\<close> stays different from \<open>input\<close> at position 0 of the range.
\<close>

theorem C1_huge_sub_counterexample:
  "ToSubVector (replicate (2 ^ 31) (0 :: int)) (replicate (2 ^ 31) 1) 0 []
     = Some (replicate (2 ^ 31) 0)
   \<and> FromSubVector (replicate (2 ^ 31) (0 :: int)) (replicate (2 ^ 31) 0) 0 []
     = Some (replicate (2 ^ 31) 0)
   \<and> length (replicate (2 ^ 31) (0 :: int)) = length (replicate (2 ^ 31) (1 :: int))
   \<and> unat (0 :: uint) \<le> 0
   \<and> (0 :: nat) < unat (0 :: uint)
         + (length (replicate (2 ^ 31) (0 :: int)) - length ([] :: uint list))
   \<and> replicate (2 ^ 31) (0 :: int) ! 0 \<noteq> replicate (2 ^ 31) (1 :: int) ! 0"
  by (simp add: ToSubVector_def FromSubVector_def ToSubVector_loop.simps
      FromSubVector_loop.simps CopyVector_def ccopy_def)

text \<open>
  C1 (amended): for every \<open>input\<close>, every strictly increasing \<open>zeros\<close> sequence of positions of
  \<open>sub\<close>, every \<open>offset\<close>, every \<open>sub\<close> of fewer than \<open>2^31\<close> elements and every \<open>output\<close> of
  the length of \<open>input\<close>: whenever every access of
  \<^verbatim>\<open>ToSubVector(sub, input, offset, zeros)\<close> followed by
  \<^verbatim>\<open>FromSubVector(sub, output, offset, zeros)\<close> is in range (both calls have a result),
  \<open>output\<close> is left equal to \<open>input\<close> at every position of the copied range
  \<open>offset \<le> i < offset + (length sub - length zeros)\<close> (the skipped positions are
  positions of \<open>sub\<close>, none of them is in this range) and unchanged everywhere else.
  Every access is in range, and both calls have a result, when the copied range lies
  inside \<open>input\<close> and ends at or below \<open>2^31\<close>. Nothing is assumed about the length of
  \<open>input\<close>.
\<close>

theorem C1_subvector_round_trip:
  fixes zeros :: "uint list" and offset :: uint
  assumes "sorted_wrt (<) zeros"
    and "\<forall>z\<in>set zeros. unat z < length sub"
    and "length sub < 2 ^ 31"
    and "length output = length input"
  shows "(ToSubVector sub input offset zeros = Some sub'
            \<and> FromSubVector sub' output offset zeros = Some output'
          \<longrightarrow> length output' = length output
            \<and> (\<forall>i. unat offset \<le> i \<and> i < unat offset + (length sub - length zeros)
                   \<longrightarrow> output' ! i = input ! i)
            \<and> (\<forall>i<length output.
                   \<not> (unat offset \<le> i \<and> i < unat offset + (length sub - length zeros))
                   \<longrightarrow> output' ! i = output ! i))
       \<and> (unat offset + (length sub - length zeros) \<le> length input
            \<and> unat offset + (length sub - length zeros) \<le> 2 ^ 31
          \<longrightarrow> (\<exists>sub1 output1. ToSubVector sub input offset zeros = Some sub1
                  \<and> FromSubVector sub1 output offset zeros = Some output1))"
proof (intro conjI impI)
  have sorted: "sorted_wrt (<) (map unat zeros)"
    using assms(1) by (simp add: sorted_wrt_map flip: word_less_nat_alt)
  have zs: "\<forall>z\<in>set zeros. unat (0 :: cint) \<le> unat z \<and> unat z < length sub"
    using assms(2) by simp
  have s0: "unat (0 :: cint) \<le> length sub" by simp
  {
    assume h: "ToSubVector sub input offset zeros = Some sub'
            \<and> FromSubVector sub' output offset zeros = Some output'"
    then have to: "ToSubVector_loop sub input offset 0 zeros = Some sub'"
      and fr: "FromSubVector_loop sub' output offset 0 zeros = Some output'"
      by (simp_all add: ToSubVector_def FromSubVector_def)
    from subvector_roundtrip_loop [OF sorted zs s0 assms(3) to] fr
    have len: "length output' = length output"
      and rng: "0 < length sub - length zeros \<longrightarrow>
                  unat offset + (length sub - length zeros) \<le> length output"
      and nth: "\<forall>i<length output. output' ! i
                  = (if unat offset \<le> i \<and> i < unat offset + (length sub - length zeros)
                     then input ! i else output ! i)"
      by auto
    show "length output' = length output" by (fact len)
    show "\<forall>i. unat offset \<le> i \<and> i < unat offset + (length sub - length zeros)
                   \<longrightarrow> output' ! i = input ! i"
    proof (intro allI impI)
      fix i assume i: "unat offset \<le> i \<and> i < unat offset + (length sub - length zeros)"
      then have "0 < length sub - length zeros" by linarith
      with rng i have "i < length output" by simp
      with nth i show "output' ! i = input ! i" by simp
    qed
    show "\<forall>i<length output.
                   \<not> (unat offset \<le> i \<and> i < unat offset + (length sub - length zeros))
                   \<longrightarrow> output' ! i = output ! i"
      using nth by simp
  }
  {
    assume h: "unat offset + (length sub - length zeros) \<le> length input
            \<and> unat offset + (length sub - length zeros) \<le> 2 ^ 31"
    then have in_input: "unat offset + (length sub - unat (0 :: cint) - length zeros)
          \<le> length input"
      and in_int: "unat offset + (length sub - unat (0 :: cint) - length zeros) \<le> 2 ^ 31"
      by simp_all
    from ToSubVector_loop_defined [OF sorted zs s0 assms(3) in_input in_int] obtain sub1 where
      to: "ToSubVector_loop sub input offset 0 zeros = Some sub1"
      and len: "length sub1 = length sub"
      by blast
    have zs': "\<forall>z\<in>set zeros. unat (0 :: cint) \<le> unat z \<and> unat z < length sub1"
      using zs len by simp
    have s0': "unat (0 :: cint) \<le> length sub1" by simp
    have n': "length sub1 < 2 ^ 31" using assms(3) len by simp
    have in_output: "unat offset + (length sub1 - unat (0 :: cint) - length zeros)
          \<le> length output"
      using in_input len assms(4) by simp
    have in_int': "unat offset + (length sub1 - unat (0 :: cint) - length zeros) \<le> 2 ^ 31"
      using in_int len by simp
    from FromSubVector_loop_defined [OF sorted zs' s0' n' in_output in_int'] obtain output1 where
      "FromSubVector_loop sub1 output offset 0 zeros = Some output1"
      by blast
    with to show "\<exists>sub1 output1. ToSubVector sub input offset zeros = Some sub1
                  \<and> FromSubVector sub1 output offset zeros = Some output1"
      by (auto simp: ToSubVector_def FromSubVector_def)
  }
qed

theorem C1_subvector_round_trip_witness:
  "sorted_wrt (<) [1, 3 :: uint]
   \<and> unat (1 :: uint) < length [0, 0, 0, 0, 0 :: int]
   \<and> unat (3 :: uint) < length [0, 0, 0, 0, 0 :: int]
   \<and> length [0, 0, 0, 0, 0 :: int] < 2 ^ 31
   \<and> length [20, 21, 22, 23, 24, 25, 26 :: int] = length [10, 11, 12, 13, 14, 15, 16 :: int]
   \<and> unat (1 :: uint) + (length [0, 0, 0, 0, 0 :: int] - length [1, 3 :: uint])
       \<le> length [10, 11, 12, 13, 14, 15, 16 :: int]
   \<and> unat (1 :: uint) + (length [0, 0, 0, 0, 0 :: int] - length [1, 3 :: uint]) \<le> 2 ^ 31
   \<and> ToSubVector [0, 0, 0, 0, 0] [10, 11, 12, 13, 14, 15, 16 :: int] 1 [1, 3]
       = Some [11, 0, 12, 0, 13]
   \<and> FromSubVector [11, 0, 12, 0, 13] [20, 21, 22, 23, 24, 25, 26 :: int] 1 [1, 3]
       = Some [20, 11, 12, 13, 24, 25, 26]"
  using C1_subvector_round_trip
    [of "[1, 3]" "[0, 0, 0, 0, 0 :: int]" "[20, 21, 22, 23, 24, 25, 26]"
        "[10, 11, 12, 13, 14, 15, 16]" 1 "[11, 0, 12, 0, 13]"
        "[20, 11, 12, 13, 24, 25, 26]"]
  by (simp add: ToSubVector_def FromSubVector_def ToSubVector_loop.simps
      FromSubVector_loop.simps CopyVector_def ccopy_def)

section \<open>The update rule of VectorHadamardIncrement (C2, C3)\<close>

lemma inner_result:
  assumes "length b = length a"
  shows "\<exists>a'. VectorHadamardIncrement_inner a scale b j j = Some a'
            \<and> length a' = length a
            \<and> (\<forall>i<length a. a' ! i = (if j \<le> i then a ! i * (scale * b ! i) else a ! i))"
  using assms
proof (induction "length a - j" arbitrary: a j)
  case 0
  then show ?case by (simp add: VectorHadamardIncrement_inner.simps [of a])
next
  case (Suc n)
  let ?a1 = "a[j := a ! j * (scale * b ! j)]"
  from Suc.hyps(2) have j: "j < length a" by simp
  have "n = length ?a1 - (j + 1)" using Suc.hyps(2) by simp
  moreover have "length b = length ?a1" using Suc.prems by simp
  ultimately obtain a' where a': "VectorHadamardIncrement_inner ?a1 scale b (j + 1) (j + 1) = Some a'"
    "length a' = length ?a1"
    "\<forall>i<length ?a1. a' ! i = (if j + 1 \<le> i then ?a1 ! i * (scale * b ! i) else ?a1 ! i)"
    using Suc.hyps(1) [of ?a1 "j + 1"] by blast
  from j Suc.prems a'(1) have "VectorHadamardIncrement_inner a scale b j j = Some a'"
    by (simp add: VectorHadamardIncrement_inner.simps [of a])
  moreover have "length a' = length a" using a'(2) by simp
  moreover have "\<forall>i<length a. a' ! i = (if j \<le> i then a ! i * (scale * b ! i) else a ! i)"
  proof (intro allI impI)
    fix i assume i: "i < length a"
    with a'(3) have "a' ! i = (if j + 1 \<le> i then ?a1 ! i * (scale * b ! i) else ?a1 ! i)" by simp
    then show "a' ! i = (if j \<le> i then a ! i * (scale * b ! i) else a ! i)"
      using i j by (cases "i = j") auto
  qed
  ultimately show ?case by blast
qed

text \<open>
  From any start \<open>j\<close> of the outer loop: an element before \<open>j\<close> is left alone, an
  element \<open>i\<close> from \<open>j\<close> on is updated once by the block that contains it and once more
  by every later block that starts at or before it.
\<close>

lemma outer_repeats:
  assumes "length b = length a"
  shows "\<exists>a'. VectorHadamardIncrement_outer a scale b j j = Some a'
            \<and> length a' = length a
            \<and> (\<forall>i<length a. a' ! i =
                  (if i < j then a ! i
                   else ((\<lambda>a_i. a_i * (scale * b ! i)) ^^ ((i - j) div block + 1)) (a ! i)))"
  using assms
proof (induction "length a - j" arbitrary: a j rule: less_induct)
  case less
  show ?case
  proof (cases "j < length a")
    case False
    then show ?thesis by (simp add: VectorHadamardIncrement_outer.simps [of a])
  next
    case True
    from inner_result [OF less.prems, of scale j]
    obtain a1 where a1: "VectorHadamardIncrement_inner a scale b j j = Some a1"
      "length a1 = length a"
      "\<forall>i<length a. a1 ! i = (if j \<le> i then a ! i * (scale * b ! i) else a ! i)"
      by blast
    have "length a1 - (j + block) < length a - j" using True a1(2) by (simp add: block_def)
    moreover have "length b = length a1" using less.prems a1(2) by simp
    ultimately obtain a' where a': "VectorHadamardIncrement_outer a1 scale b (j + block) (j + block) = Some a'"
      "length a' = length a1"
      "\<forall>i<length a1. a' ! i =
          (if i < j + block then a1 ! i
           else ((\<lambda>a_i. a_i * (scale * b ! i)) ^^ ((i - (j + block)) div block + 1)) (a1 ! i))"
      using less.hyps [of a1 "j + block"] by blast
    from True a1(1) a'(1) have "VectorHadamardIncrement_outer a scale b j j = Some a'"
      by (simp add: VectorHadamardIncrement_outer.simps [of a])
    moreover have "length a' = length a" using a'(2) a1(2) by simp
    moreover have "\<forall>i<length a. a' ! i =
                  (if i < j then a ! i
                   else ((\<lambda>a_i. a_i * (scale * b ! i)) ^^ ((i - j) div block + 1)) (a ! i))"
    proof (intro allI impI)
      fix i assume i: "i < length a"
      define f where "f = (\<lambda>a_i. a_i * (scale * b ! i))"
      from a'(3) a1(2) i have e: "a' ! i =
          (if i < j + block then a1 ! i else (f ^^ ((i - (j + block)) div block + 1)) (a1 ! i))"
        by (simp add: f_def)
      from a1(3) i have e1: "a1 ! i = (if j \<le> i then f (a ! i) else a ! i)"
        by (simp add: f_def)
      consider "i < j" | "j \<le> i" "i < j + block" | "j + block \<le> i" by linarith
      then have "a' ! i = (if i < j then a ! i else (f ^^ ((i - j) div block + 1)) (a ! i))"
      proof cases
        case 1
        with e e1 show ?thesis by simp
      next
        case 2
        then have "(i - j) div block = 0" by simp
        with 2 e e1 show ?thesis by simp
      next
        case 3
        let ?m = "(i - (j + block)) div block + 1"
        from 3 have d: "(i - j) div block = ?m" by (simp add: block_def le_div_geq)
        from 3 e e1 have "a' ! i = (f ^^ ?m) (f (a ! i))" by simp
        also have "\<dots> = f ((f ^^ ?m) (a ! i))" by (rule funpow_swap1 [symmetric])
        also have "\<dots> = (f ^^ (?m + 1)) (a ! i)" by simp
        finally show ?thesis using 3 d by simp
      qed
      then show "a' ! i = (if i < j then a ! i
                   else ((\<lambda>a_i. a_i * (scale * b ! i)) ^^ ((i - j) div block + 1)) (a ! i))"
        by (simp add: f_def)
    qed
    ultimately show ?thesis by blast
  qed
qed

lemma VectorHadamardIncrement_repeats:
  assumes "length b = length a"
  shows "\<exists>a'. VectorHadamardIncrement a scale b = Some a'
            \<and> length a' = length a
            \<and> (\<forall>i<length a. a' ! i = ((\<lambda>a_i. a_i * (scale * b ! i)) ^^ (i div 64 + 1)) (a ! i))"
  using outer_repeats [OF assms, of scale 0] by (simp add: VectorHadamardIncrement_def block_def)

text \<open>
  C2, as stated, has the prior value of \<open>a_i\<close> discarded (\<open>a_i := scale * b_i\<close>). The
  source multiplies: from \<open>a = [2]\<close>, \<open>scale = 1\<close>, \<open>b = [3]\<close> it gives \<open>[6]\<close>, not
  \<open>[3]\<close>.
\<close>

theorem C2_overwrite_counterexample:
  "VectorHadamardIncrement [2 :: int] 1 [3] = Some [6] \<and> (6 :: int) \<noteq> 1 * 3"
  by (simp add: VectorHadamardIncrement_def VectorHadamardIncrement_outer.simps
      VectorHadamardIncrement_inner.simps block_def)

text \<open>
  C2 (amended): for every vector \<open>a\<close>, scalar \<open>scale\<close> and vector \<open>b\<close> of the same length,
  \<^verbatim>\<open>VectorHadamardIncrement(a, scale, b)\<close> returns, keeps the length of \<open>a\<close>, and updates
  every element \<open>i < 64\<close> (the first block) by the rule \<open>a_i := a_i * (scale * b_i)\<close>:
  the prior value of \<open>a_i\<close> is multiplied into the result. No law of multiplication is
  used, so this holds for rounded arithmetic as well.
\<close>

theorem C2_first_block_multiplies:
  fixes a b :: "'a::times list"
  assumes "length b = length a"
  shows "\<exists>a'. VectorHadamardIncrement a scale b = Some a'
            \<and> length a' = length a
            \<and> (\<forall>i<length a. i < 64 \<longrightarrow> a' ! i = a ! i * (scale * b ! i))"
proof -
  from VectorHadamardIncrement_repeats [OF assms, of scale] obtain a' where
    r: "VectorHadamardIncrement a scale b = Some a'"
    and l: "length a' = length a"
    and n: "\<forall>i<length a. a' ! i = ((\<lambda>a_i. a_i * (scale * b ! i)) ^^ (i div 64 + 1)) (a ! i)"
    by blast
  have "\<forall>i<length a. i < 64 \<longrightarrow> a' ! i = a ! i * (scale * b ! i)"
  proof (intro allI impI)
    fix i assume "i < length a" and first: "i < 64"
    with n have "a' ! i = ((\<lambda>a_i. a_i * (scale * b ! i)) ^^ (i div 64 + 1)) (a ! i)" by blast
    with first show "a' ! i = a ! i * (scale * b ! i)" by simp
  qed
  with r l show ?thesis by blast
qed

theorem C2_first_block_multiplies_witness:
  "length [5, 7 :: int] = length [2, 3 :: int]
   \<and> VectorHadamardIncrement [2, 3 :: int] 10 [5, 7] = Some [100, 210]"
  using C2_first_block_multiplies [of "[5, 7 :: int]" "[2, 3]" 10]
  by (simp add: VectorHadamardIncrement_def VectorHadamardIncrement_outer.simps
      VectorHadamardIncrement_inner.simps block_def)

text \<open>
  C3: the blocked iteration is claimed to leave the same values as a single pass of the
  update rule. The inner loop does not stop at the end of its block but at the end of
  the vector, so every element from index 64 on is updated again by each later block
  (\<open>i div 64 + 1\<close> times in all, as shown above). On 65 elements \<open>a_i = 1\<close>, \<open>b_i = 2\<close>,
  \<open>scale = 1\<close> the last element ends as 4, where the single pass (and the source's own
  comment, \<^verbatim>\<open>a_i *= scale*b_i\<close>) gives 2.
\<close>

theorem C3_second_block_multiplied_twice:
  "VectorHadamardIncrement (replicate 65 (1 :: int)) 1 (replicate 65 2)
     = Some (replicate 64 2 @ [4])
   \<and> hadamard_increment_single_pass (replicate 65 (1 :: int)) 1 (replicate 65 2)
     = replicate 65 2"
  unfolding VectorHadamardIncrement_def hadamard_increment_single_pass_def block_def
  by code_simp

section \<open>Matrix element access (C4)\<close>

text \<open>
  C4, as stated, makes the access fail exactly when \<open>row\<close> or \<open>col\<close> is outside its own
  dimension. The check is on the flat offset only: in a 2 x 2 matrix the access
  \<open>(0, 2)\<close>, whose column is out of bounds, succeeds and gives the element \<open>(1, 0)\<close>.
\<close>

theorem C4_column_overrun_counterexample:
  "matrix_get \<lparr>m_dLeading = 2, m_dSecond = 2, m_data = [10, 11, 12, 13 :: int]\<rparr> 0 2 = Inr 12
   \<and> matrix_ref \<lparr>m_dLeading = 2, m_dSecond = 2, m_data = [10, 11, 12, 13 :: int]\<rparr> 0 2 = Inr 2
   \<and> \<not> ((2 :: uint) < m_dSecond \<lparr>m_dLeading = 2, m_dSecond = 2, m_data = [10, 11, 12, 13 :: int]\<rparr>)"
  by (simp add: matrix_get_def matrix_ref_def matrix_index_def vector_at_def)

text \<open>
  C4 (amended): element access fails with the out-of-range error if and only if the flat
  offset \<open>row * secondDim + col\<close>, computed in 32-bit unsigned arithmetic, is not below
  the buffer length. For a matrix whose buffer holds \<open>leadingDim * secondDim\<close> elements
  (the product being below \<open>2^32\<close>), every access with \<open>row < leadingDim\<close> and
  \<open>col < secondDim\<close> succeeds, and returns (or refers to) the buffer element at offset
  \<open>row * secondDim + col\<close>.
\<close>

theorem C4_matrix_access:
  fixes m :: "'a matrix"
  shows "(matrix_get m row col = Inl OutOfRange
            \<longleftrightarrow> length (m_data m) \<le> unat (row * m_dSecond m + col))
       \<and> (matrix_ref m row col = Inl OutOfRange
            \<longleftrightarrow> length (m_data m) \<le> unat (row * m_dSecond m + col))
       \<and> (length (m_data m) = unat (m_dLeading m) * unat (m_dSecond m)
            \<and> unat (m_dLeading m) * unat (m_dSecond m) < 2 ^ 32
            \<and> row < m_dLeading m \<and> col < m_dSecond m
          \<longrightarrow> matrix_get m row col = Inr (m_data m ! (unat row * unat (m_dSecond m) + unat col))
            \<and> matrix_ref m row col = Inr (unat row * unat (m_dSecond m) + unat col))"
proof (intro conjI impI)
  show "matrix_get m row col = Inl OutOfRange
          \<longleftrightarrow> length (m_data m) \<le> unat (row * m_dSecond m + col)"
    by (simp add: matrix_get_def matrix_index_def vector_at_def)
  show "matrix_ref m row col = Inl OutOfRange
          \<longleftrightarrow> length (m_data m) \<le> unat (row * m_dSecond m + col)"
    by (simp add: matrix_ref_def matrix_index_def vector_at_def)
next
  assume h: "length (m_data m) = unat (m_dLeading m) * unat (m_dSecond m)
      \<and> unat (m_dLeading m) * unat (m_dSecond m) < 2 ^ 32
      \<and> row < m_dLeading m \<and> col < m_dSecond m"
  then have idx: "unat (row * m_dSecond m + col) = unat row * unat (m_dSecond m) + unat col"
    and lt: "unat row * unat (m_dSecond m) + unat col < unat (m_dLeading m) * unat (m_dSecond m)"
    using flat_index_exact [of "m_dLeading m" "m_dSecond m" row col] by simp_all
  from h idx lt
  show "matrix_get m row col = Inr (m_data m ! (unat row * unat (m_dSecond m) + unat col))"
    by (simp add: matrix_get_def matrix_index_def vector_at_def)
  from h idx lt
  show "matrix_ref m row col = Inr (unat row * unat (m_dSecond m) + unat col)"
    by (simp add: matrix_ref_def matrix_index_def vector_at_def)
qed

theorem C4_matrix_access_witness:
  "length (m_data \<lparr>m_dLeading = 2, m_dSecond = 3, m_data = [10, 11, 12, 13, 14, 15 :: int]\<rparr>)
     = unat (2 :: uint) * unat (3 :: uint)
   \<and> unat (2 :: uint) * unat (3 :: uint) < 2 ^ 32
   \<and> (1 :: uint) < 2 \<and> (2 :: uint) < 3
   \<and> matrix_get \<lparr>m_dLeading = 2, m_dSecond = 3, m_data = [10, 11, 12, 13, 14, 15 :: int]\<rparr> 1 2
       = Inr 15
   \<and> matrix_ref \<lparr>m_dLeading = 2, m_dSecond = 3, m_data = [10, 11, 12, 13, 14, 15 :: int]\<rparr> 1 2
       = Inr 5
   \<and> matrix_get \<lparr>m_dLeading = 2, m_dSecond = 3, m_data = [10, 11, 12, 13, 14, 15 :: int]\<rparr> 2 0
       = Inl OutOfRange"
  using C4_matrix_access
    [where m = "\<lparr>m_dLeading = 2, m_dSecond = 3, m_data = [10, 11, 12, 13, 14, 15 :: int]\<rparr>"
       and row = 1 and col = 2]
    C4_matrix_access
    [where m = "\<lparr>m_dLeading = 2, m_dSecond = 3, m_data = [10, 11, 12, 13, 14, 15 :: int]\<rparr>"
       and row = 2 and col = 0]
  by simp

section \<open>VectorHadamard (C5)\<close>

lemma dsbmv_diagonal_result:
  fixes a x y :: "'a::{zero,plus,times} list"
  assumes "n < 2 ^ 31" "n \<le> length a" "n \<le> length x" "n \<le> length y"
  shows "\<exists>y'. dsbmv_diagonal (word_of_nat n) alpha a x beta y = Some y'
      \<and> length y' = length y
      \<and> (\<forall>i<n. y' ! i = alpha * a ! i * x ! i + (if beta = 0 then 0 else beta * y ! i))
      \<and> (\<forall>i. n \<le> i \<and> i < length y \<longrightarrow> y' ! i = y ! i)"
proof -
  let ?y' = "map (\<lambda>i. alpha * a ! i * x ! i + (if beta = 0 then 0 else beta * y ! i)) [0 ..< n]
             @ drop n y"
  from assms have "dsbmv_diagonal (word_of_nat n) alpha a x beta y = Some ?y'"
    by (simp add: dsbmv_diagonal_def sint_size)
  moreover have "length ?y' = length y" using assms by simp
  moreover have "\<forall>i<n. ?y' ! i = alpha * a ! i * x ! i + (if beta = 0 then 0 else beta * y ! i)"
    by (simp add: nth_append)
  moreover have "\<forall>i. n \<le> i \<and> i < length y \<longrightarrow> ?y' ! i = y ! i"
    using assms by (simp add: nth_append)
  ultimately show ?thesis by blast
qed

text \<open>
  C5, as stated, covers every output vector. The order \<open>N\<close> is the size of \<open>c\<close> stored
  in an \<^verbatim>\<open>int\<close>: for a vector of \<open>2^32\<close> elements it is 0 and \<open>c\<close> is left as it was.
\<close>

theorem C5_huge_output_counterexample:
  "VectorHadamard (replicate (2 ^ 32) (7 :: int)) 1 (replicate (2 ^ 32) 1) (replicate (2 ^ 32) 1)
     = Some (replicate (2 ^ 32) 7)
   \<and> replicate (2 ^ 32) (7 :: int) ! 0 \<noteq> 1 * replicate (2 ^ 32) 1 ! 0 * replicate (2 ^ 32) 1 ! 0"
  by (simp add: VectorHadamard_def dsbmv_diagonal_def)

text \<open>
  From \<open>2^31\<close> elements on the order no longer fits: at \<open>2^31\<close> it is negative, which the
  kernel rejects.
\<close>

lemma VectorHadamard_negative_order:
  "VectorHadamard (replicate (2 ^ 31) (7 :: int)) 1 (replicate (2 ^ 31) 1) (replicate (2 ^ 31) 1)
     = None"
  by (simp add: VectorHadamard_def dsbmv_diagonal_def)

text \<open>
  C5 (amended): for every output vector \<open>c\<close> of fewer than \<open>2^31\<close> elements, vectors \<open>a\<close>
  and \<open>b\<close> of the same length and every scalar \<open>scale\<close>, \<^verbatim>\<open>VectorHadamard(c, scale, a, b)\<close>
  returns and sets \<open>c_i = scale * a_i * b_i\<close> for every index \<open>i\<close>; the prior contents of
  \<open>c\<close> do not appear in the result.
\<close>

theorem C5_VectorHadamard:
  fixes a b c :: "'a::semiring_0 list"
  assumes "length a = length c" and "length b = length c" and "length c < 2 ^ 31"
  shows "\<exists>c'. VectorHadamard c scale a b = Some c'
      \<and> length c' = length c
      \<and> (\<forall>i<length c. c' ! i = scale * a ! i * b ! i)"
proof -
  from dsbmv_diagonal_result [of "length c" a b c scale 0] assms
  obtain c' where "dsbmv_diagonal (word_of_nat (length c)) scale a b 0 c = Some c'"
    "length c' = length c"
    "\<forall>i<length c. c' ! i = scale * a ! i * b ! i + 0"
    by auto
  then show ?thesis by (simp add: VectorHadamard_def)
qed

theorem C5_VectorHadamard_witness:
  "length [1, 2, 3 :: int] = length [9, 9, 9 :: int]
   \<and> length [4, 5, 6 :: int] = length [9, 9, 9 :: int]
   \<and> length [9, 9, 9 :: int] < 2 ^ 31
   \<and> VectorHadamard [9, 9, 9] 2 [1, 2, 3] [4, 5, 6 :: int] = Some [8, 20, 36]"
  using C5_VectorHadamard [of "[1, 2, 3 :: int]" "[9, 9, 9]" "[4, 5, 6]" 2]
  by (simp add: VectorHadamard_def dsbmv_diagonal_def upt_conv_Cons)

section \<open>Synchronization replicates the source rank (C6)\<close>

lemma Sync_value_valid:
  assumes "valid_rank syncNode (length buffer)"
  shows "Sync_value buffer syncNode = Some (replicate (length buffer) (buffer ! nat syncNode))"
  using assms by (simp add: Sync_value_def map_replicate_const)

lemma MpiSyncVector_valid:
  fixes vector :: "'a::zero list list"
  assumes R: "valid_rank syncNode (length vector)"
    and small: "length (vector ! nat syncNode) < 2 ^ 32"
  shows "MpiSyncVector vector syncNode
           = Some (replicate (length vector) (vector ! nat syncNode))"
proof -
  let ?n = "length vector"
  let ?src = "vector ! nat syncNode"
  let ?d = "word_of_nat (length ?src) :: uint"
  let ?dim = "map (\<lambda>v. (word_of_nat (length v) :: uint)) vector"
  let ?vector' = "map (\<lambda>m_id. if syncNode \<noteq> int m_id
                                then vector_resize (vector ! m_id) (unat (replicate ?n ?d ! m_id))
                                else vector ! m_id) [0 ..< ?n]"
  from R have src: "0 \<le> syncNode" "nat syncNode < ?n" by (simp_all add: valid_rank_def)
  have d: "unat ?d = length ?src" using small by (rule unat_size)
  have "valid_rank syncNode (length ?dim)" using R by simp
  then have sv: "Sync_value ?dim syncNode = Some (replicate ?n ?d)"
    using src by (simp add: Sync_value_valid)
  have own: "?vector' ! nat syncNode = ?src" using src by simp
  have len: "length (?vector' ! r) = length ?src" if "r < ?n" for r
    using that d src by (cases "syncNode = int r") (auto simp: length_vector_resize)
  have ok: "list_all (\<lambda>r. map unat (replicate ?n ?d) ! r = map unat (replicate ?n ?d) ! nat syncNode
                          \<and> map unat (replicate ?n ?d) ! r \<le> length (?vector' ! r))
              [0 ..< length ?vector']"
    unfolding list_all_iff
  proof
    fix r assume "r \<in> set [0 ..< length ?vector']"
    then have r: "r < ?n" by simp
    from len [OF r] have "length (?vector' ! r) = length ?src" .
    with r src d show "map unat (replicate ?n ?d) ! r = map unat (replicate ?n ?d) ! nat syncNode
                          \<and> map unat (replicate ?n ?d) ! r \<le> length (?vector' ! r)"
      by simp
  qed
  have res: "map (\<lambda>r. take (map unat (replicate ?n ?d) ! r) (?vector' ! nat syncNode)
                            @ drop (map unat (replicate ?n ?d) ! r) (?vector' ! r))
                [0 ..< length ?vector']
             = replicate ?n ?src"
  proof (rule nth_equalityI)
    show "length (map (\<lambda>r. take (map unat (replicate ?n ?d) ! r) (?vector' ! nat syncNode)
                            @ drop (map unat (replicate ?n ?d) ! r) (?vector' ! r))
                [0 ..< length ?vector']) = length (replicate ?n ?src)"
      by simp
  next
    fix r
    assume "r < length (map (\<lambda>r. take (map unat (replicate ?n ?d) ! r) (?vector' ! nat syncNode)
                            @ drop (map unat (replicate ?n ?d) ! r) (?vector' ! r))
                [0 ..< length ?vector'])"
    then have r: "r < ?n" by simp
    from len [OF r] have l: "length (?vector' ! r) = length ?src" .
    have "take (length ?src) (?vector' ! nat syncNode) @ drop (length ?src) (?vector' ! r) = ?src"
      using own l by simp
    with r d show "map (\<lambda>r. take (map unat (replicate ?n ?d) ! r) (?vector' ! nat syncNode)
                            @ drop (map unat (replicate ?n ?d) ! r) (?vector' ! r))
                [0 ..< length ?vector'] ! r = replicate ?n ?src ! r"
      by simp
  qed
  have "valid_rank syncNode (length ?vector')" using R by simp
  moreover have "length (map unat (replicate ?n ?d)) = length ?vector'" by simp
  ultimately have "Sync ?vector' (map unat (replicate ?n ?d)) syncNode = Some (replicate ?n ?src)"
    using ok res unfolding Sync_def by (simp only: if_True simp_thms)
  with sv show ?thesis by (simp add: MpiSyncVector_def)
qed

text \<open>
  C6, as stated, covers every container. The size travels as an \<^verbatim>\<open>unsigned int\<close>:
  when the source rank holds \<open>2^32\<close> elements, the other ranks are told 0 and end with an
  empty vector.
\<close>

theorem C6_huge_vector_counterexample:
  "MpiSyncVector [replicate (2 ^ 32) (7 :: int), []] 0 = Some [replicate (2 ^ 32) 7, []]
   \<and> [] \<noteq> replicate (2 ^ 32) (7 :: int)"
  by (simp add: MpiSyncVector_def Sync_value_def Sync_def valid_rank_def vector_resize_def
      upt_conv_Cons)

text \<open>
  C6 (amended): after a synchronization call whose source rank \<open>R\<close> is one of the ranks
  and holds a container of fewer than \<open>2^32\<close> elements, every rank's vector
  (\<^verbatim>\<open>MpiSyncVector\<close>) or matrix (\<^verbatim>\<open>matrix::MpiSync\<close>) has the dimensions and the
  element values that the container had on rank \<open>R\<close> before the call; the container of
  rank \<open>R\<close> itself is unchanged.
\<close>

theorem C6_sync_replicates_source:
  fixes vector :: "'a::zero list list" and m :: "'a matrix list"
  shows "(valid_rank syncNode (length vector) \<and> length (vector ! nat syncNode) < 2 ^ 32
            \<longrightarrow> MpiSyncVector vector syncNode
                  = Some (replicate (length vector) (vector ! nat syncNode)))
       \<and> (valid_rank syncNode (length m) \<and> length (m_data (m ! nat syncNode)) < 2 ^ 32
            \<longrightarrow> MpiSync m syncNode = Some (replicate (length m) (m ! nat syncNode)))"
proof (intro conjI impI)
  assume "valid_rank syncNode (length vector) \<and> length (vector ! nat syncNode) < 2 ^ 32"
  then show "MpiSyncVector vector syncNode
                  = Some (replicate (length vector) (vector ! nat syncNode))"
    by (simp add: MpiSyncVector_valid)
next
  assume h: "valid_rank syncNode (length m) \<and> length (m_data (m ! nat syncNode)) < 2 ^ 32"
  then have src: "nat syncNode < length m" by (simp add: valid_rank_def)
  from h have "valid_rank syncNode (length (map m_data m))"
    and "length (map m_data m ! nat syncNode) < 2 ^ 32"
    using src by simp_all
  then have data: "MpiSyncVector (map m_data m) syncNode
      = Some (replicate (length m) (m_data (m ! nat syncNode)))"
    using src MpiSyncVector_valid [of syncNode "map m_data m"] by simp
  from h have l: "Sync_value (map m_dLeading m) syncNode
      = Some (replicate (length m) (m_dLeading (m ! nat syncNode)))"
    using src Sync_value_valid [of syncNode "map m_dLeading m"] by simp
  from h have s: "Sync_value (map m_dSecond m) syncNode
      = Some (replicate (length m) (m_dSecond (m ! nat syncNode)))"
    using src Sync_value_valid [of syncNode "map m_dSecond m"] by simp
  have "map (\<lambda>r. \<lparr>m_dLeading = replicate (length m) (m_dLeading (m ! nat syncNode)) ! r,
                    m_dSecond = replicate (length m) (m_dSecond (m ! nat syncNode)) ! r,
                    m_data = replicate (length m) (m_data (m ! nat syncNode)) ! r\<rparr>)
          [0 ..< length m]
        = replicate (length m) (m ! nat syncNode)"
    by (rule nth_equalityI) simp_all
  with data l s show "MpiSync m syncNode = Some (replicate (length m) (m ! nat syncNode))"
    by (simp add: MpiSync_def)
qed

theorem C6_sync_replicates_source_witness:
  "valid_rank 1 (length [[1, 2], [3, 4, 5], [] :: int list])
   \<and> length ([[1, 2], [3, 4, 5], [] :: int list] ! nat 1) < 2 ^ 32
   \<and> MpiSyncVector [[1, 2], [3, 4, 5], [] :: int list] 1 = Some [[3, 4, 5], [3, 4, 5], [3, 4, 5]]
   \<and> MpiSync [\<lparr>m_dLeading = 0, m_dSecond = 0, m_data = [] :: int list\<rparr>,
               \<lparr>m_dLeading = 1, m_dSecond = 2, m_data = [8, 9]\<rparr>] 1
       = Some [\<lparr>m_dLeading = 1, m_dSecond = 2, m_data = [8, 9]\<rparr>,
               \<lparr>m_dLeading = 1, m_dSecond = 2, m_data = [8, 9]\<rparr>]"
  using C6_sync_replicates_source [of 1 "[[1, 2], [3, 4, 5], [] :: int list]"
      "[\<lparr>m_dLeading = 0, m_dSecond = 0, m_data = [] :: int list\<rparr>,
        \<lparr>m_dLeading = 1, m_dSecond = 2, m_data = [8, 9]\<rparr>]"]
  by (simp add: valid_rank_def numeral_3_eq_3)

section \<open>Determinism of SetToRandomVector (C7)\<close>

lemma SetToRandomVector_loop_length_only:
  "length v1 = length v2 \<Longrightarrow>
   SetToRandomVector_loop distribution generator v1
     = SetToRandomVector_loop distribution generator v2"
proof (induction v1 v2 arbitrary: generator rule: list_induct2)
  case Nil
  show ?case by simp
next
  case (Cons x xs y ys)
  then show ?case by (simp split: prod.split)
qed

text \<open>
  C7: two calls of \<^verbatim>\<open>SetToRandomVector\<close> with the same \<open>scale\<close> and the same \<open>seed\<close> on
  vectors of the same length write identical element sequences: the result does not
  depend on the prior contents of the vector, nor on anything that an earlier call left
  behind.
\<close>

theorem C7_SetToRandomVector_deterministic:
  assumes "length v1 = length v2"
  shows "SetToRandomVector v1 scale seed = SetToRandomVector v2 scale seed"
  unfolding SetToRandomVector_def Let_def
  using assms by (rule SetToRandomVector_loop_length_only)

theorem C7_SetToRandomVector_deterministic_witness:
  "length [0, 0 :: real] = length [5, 7 :: real]
   \<and> SetToRandomVector [0, 0] 1 1 = SetToRandomVector [5, 7] 1 1"
  using C7_SetToRandomVector_deterministic [of "[0, 0]" "[5, 7]" 1 1] by simp

section \<open>Empty zeros (C8)\<close>







section \<open>Matrix construction and resize (C9)\<close>

text \<open>
  C9, as stated, asks for a buffer of exactly \<open>dLeading * dSecond\<close> elements after
  \<^verbatim>\<open>resize\<close>. The product is taken in 32-bit unsigned arithmetic, so a 65536 x 65536
  matrix gets an empty buffer.
\<close>

theorem C9_resize_overflow_counterexample:
  "length (m_data (resize (matrix_default :: int matrix) 65536 65536))
     \<noteq> unat (65536 :: uint) * unat (65536 :: uint)"
  by (simp add: resize_def matrix_default_def length_vector_resize)

text \<open>
  C9 (amended): the default constructor yields a 0 x 0 matrix with an empty buffer;
  \<^verbatim>\<open>resize(dLeading, dSecond)\<close> and the two-argument constructor leave
  \<open>m_dLeading = dLeading\<close>, \<open>m_dSecond = dSecond\<close> and a buffer whose length is the
  product of the two dimensions computed in 32-bit unsigned arithmetic, that is
  \<open>dLeading * dSecond mod 2^32\<close>; it is exactly \<open>dLeading * dSecond\<close> whenever that
  product is below \<open>2^32\<close>.
\<close>

theorem C9_matrix_buffer_length:
  fixes m :: "'a::zero matrix"
  shows "m_dLeading (matrix_default :: 'a matrix) = 0
       \<and> m_dSecond (matrix_default :: 'a matrix) = 0
       \<and> m_data (matrix_default :: 'a matrix) = []
       \<and> m_dLeading (resize m dL dS) = dL
       \<and> m_dSecond (resize m dL dS) = dS
       \<and> length (m_data (resize m dL dS)) = unat (m_dLeading (resize m dL dS) * m_dSecond (resize m dL dS))
       \<and> length (m_data (resize m dL dS)) = (unat dL * unat dS) mod 2 ^ 32
       \<and> (unat dL * unat dS < 2 ^ 32 \<longrightarrow> length (m_data (resize m dL dS)) = unat dL * unat dS)
       \<and> m_dLeading (matrix_ctor dL dS :: 'a matrix) = dL
       \<and> m_dSecond (matrix_ctor dL dS :: 'a matrix) = dS
       \<and> length (m_data (matrix_ctor dL dS :: 'a matrix)) = (unat dL * unat dS) mod 2 ^ 32
       \<and> (unat dL * unat dS < 2 ^ 32 \<longrightarrow>
            length (m_data (matrix_ctor dL dS :: 'a matrix)) = unat dL * unat dS)"
  by (simp add: matrix_default_def resize_def matrix_ctor_def length_vector_resize
      unat_word_ariths)

theorem C9_matrix_buffer_length_witness:
  "unat (3 :: uint) * unat (4 :: uint) < 2 ^ 32
   \<and> length (m_data (resize (matrix_ctor 1 1 :: int matrix) 3 4)) = 12
   \<and> length (m_data (matrix_ctor 3 4 :: int matrix)) = 12"
  using C9_matrix_buffer_length [where m = "matrix_ctor 1 1 :: int matrix" and dL = 3 and dS = 4]
  by simp

section \<open>VectorDiff (C10)\<close>

lemma daxpy_result:
  fixes x y :: "'a::{plus,times} list"
  assumes "n < 2 ^ 31" "n \<le> length x" "n \<le> length y"
  shows "\<exists>y'. daxpy (word_of_nat n) alpha x y = Some y'
      \<and> length y' = length y
      \<and> (\<forall>i<n. y' ! i = y ! i + alpha * x ! i)
      \<and> (\<forall>i. n \<le> i \<and> i < length y \<longrightarrow> y' ! i = y ! i)"
proof (cases "n = 0")
  case True
  then show ?thesis by (simp add: daxpy_def)
next
  case False
  let ?y' = "map2 (\<lambda>y_i x_i. y_i + alpha * x_i) (take n y) (take n x) @ drop n y"
  from False assms have "daxpy (word_of_nat n) alpha x y = Some ?y'"
    by (simp add: daxpy_def sint_size)
  moreover have "length ?y' = length y" using assms by simp
  moreover have "\<forall>i<n. ?y' ! i = y ! i + alpha * x ! i"
    using assms by (simp add: nth_append)
  moreover have "\<forall>i. n \<le> i \<and> i < length y \<longrightarrow> ?y' ! i = y ! i"
    using assms by (simp add: nth_append)
  ultimately show ?thesis by blast
qed

text \<open>
  C10, as stated, covers every pre-call length \<open>n0\<close> of the output. \<open>N\<close> is an
  \<^verbatim>\<open>int\<close>: for \<open>n0 = 2^31\<close> it is negative, the kernel does nothing, and the first
  \<open>n0\<close> elements are those of \<open>a\<close>, with nothing subtracted.
\<close>

theorem C10_huge_output_counterexample:
  "VectorDiff (replicate (2 ^ 31) (0 :: int)) (replicate (2 ^ 31) 1) (replicate (2 ^ 31) 1)
     = Some (replicate (2 ^ 31) 1)
   \<and> replicate (2 ^ 31) (1 :: int) ! 0 \<noteq> 1 - 1"
  by (simp add: VectorDiff_def daxpy_def)

text \<open>
  C10 (amended): for every \<open>a\<close> and \<open>b\<close> of equal length, if the output has pre-call
  length \<open>n0 \<le> length a\<close> and \<open>n0 < 2^31\<close>, then \<^verbatim>\<open>VectorDiff(output, a, b)\<close> returns,
  the output has the length of \<open>a\<close>, its first \<open>n0\<close> elements are \<open>a_i - b_i\<close>, and every
  element at an index \<open>\<ge> n0\<close> is the element of \<open>a\<close> with nothing subtracted.
\<close>

theorem C10_VectorDiff_prefix:
  fixes a b :: "'a::ring_1 list"
  assumes "length b = length a" and "length output \<le> length a" and "length output < 2 ^ 31"
  shows "\<exists>output'. VectorDiff output a b = Some output'
      \<and> length output' = length a
      \<and> (\<forall>i<length output. output' ! i = a ! i - b ! i)
      \<and> (\<forall>i. length output \<le> i \<and> i < length a \<longrightarrow> output' ! i = a ! i)"
  using daxpy_result [of "length output" b a "- 1"] assms
  by (simp add: VectorDiff_def)

theorem C10_VectorDiff_prefix_witness:
  "length [1, 2, 3 :: int] = length [5, 6, 7 :: int]
   \<and> length [0, 0 :: int] \<le> length [5, 6, 7 :: int]
   \<and> length [0, 0 :: int] < 2 ^ 31
   \<and> VectorDiff [0, 0] [5, 6, 7] [1, 2, 3 :: int] = Some [4, 4, 7]"
  using C10_VectorDiff_prefix [of "[1, 2, 3 :: int]" "[5, 6, 7]" "[0, 0]"]
  by (simp add: VectorDiff_def daxpy_def)

end
